theory Spec2Isabelle
  imports Complex_Main
begin

section \<open>The Python and numpy runtime used by \<open>mcts_nn_cube.py\<close>\<close>

text \<open>
  Exceptions are values. \<open>NameError\<close>, \<open>AttributeError\<close>, \<open>IndexError\<close>, \<open>ValueError\<close> and
  \<open>RecursionError\<close> are Python's own. Two more results end a run of the model where Python
  would go on:
  \<^item> \<open>NonFinite\<close>: numpy divides by zero (or takes the root of a negative number), warns, and
    continues with \<open>inf\<close> or \<open>nan\<close>. Floats are modelled as reals, which have no such values,
    so the model stops there and says so. Rounding is not modelled.
  \<^item> \<open>InvalidReference\<close>: a node reference that points outside the store. Python
    references always point to an object; the store of the model is a list and a reference
    an index into it.
\<close>

datatype py_error =
  NameError | AttributeError | IndexError | ValueError | RecursionError
  | NonFinite | InvalidReference

text \<open>Python list indexing: a negative index counts from the end.\<close>

definition py_index :: "nat \<Rightarrow> int \<Rightarrow> nat option" where
  "py_index n i =
     (if 0 \<le> i \<and> i < int n then Some (nat i)
      else if - int n \<le> i \<and> i < 0 then Some (nat (i + int n))
      else None)"

text \<open>
  Elementwise numpy operations on one-dimensional arrays: equal shapes combine pointwise,
  an array of one element is broadcast, any other pair of shapes raises \<open>ValueError\<close>.
\<close>

definition np_broadcast :: "('a \<Rightarrow> 'b \<Rightarrow> 'c) \<Rightarrow> 'a list \<Rightarrow> 'b list \<Rightarrow> py_error + 'c list" where
  "np_broadcast f xs ys =
     (if length xs = length ys then Inr (map2 f xs ys)
      else if length xs = 1 then Inr (map (f (hd xs)) ys)
      else if length ys = 1 then Inr (map (\<lambda>x. f x (hd ys)) xs)
      else Inl ValueError)"

definition np_divide :: "real list \<Rightarrow> real list \<Rightarrow> py_error + real list" where
  "np_divide xs ys =
     (case np_broadcast Pair xs ys of
        Inl e \<Rightarrow> Inl e
      | Inr ps \<Rightarrow>
          if list_ex (\<lambda>p. snd p = 0) ps then Inl NonFinite
          else Inr (map (\<lambda>p. fst p / snd p) ps))"

definition np_sqrt :: "int \<Rightarrow> py_error + real" where
  "np_sqrt n = (if n < 0 then Inl NonFinite else Inr (sqrt (real_of_int n)))"

text \<open>
  \<open>np.argmax\<close>: one pass from the left that replaces the running best only on a strictly
  larger entry, so the first index of the maximum is returned. An empty array raises.
\<close>

fun argmax_from :: "nat \<Rightarrow> 'a::linorder \<Rightarrow> nat \<Rightarrow> 'a list \<Rightarrow> nat" where
  "argmax_from best bv i [] = best"
| "argmax_from best bv i (x # xs) =
     (if bv < x then argmax_from i x (Suc i) xs else argmax_from best bv (Suc i) xs)"

definition np_argmax :: "'a::linorder list \<Rightarrow> py_error + nat" where
  "np_argmax xs = (case xs of [] \<Rightarrow> Inl ValueError | x # rest \<Rightarrow> Inr (argmax_from 0 x 1 rest))"

text \<open>
  \<open>x ** t\<close> on floats: \<open>x ** 0\<close> is 1, a positive base is the real power, \<open>0 ** t\<close> is 0 for
  positive \<open>t\<close> and \<open>inf\<close> for negative \<open>t\<close>, a negative base has a value only for an integral
  exponent.
\<close>

definition np_power :: "real \<Rightarrow> real \<Rightarrow> py_error + real" where
  "np_power x t =
     (if t = 0 then Inr 1
      else if 0 < x then Inr (x powr t)
      else if x = 0 then (if 0 < t then Inr 0 else Inl NonFinite)
      else if t = real_of_int \<lfloor>t\<rfloor> then Inr (x powi \<lfloor>t\<rfloor>)
      else Inl NonFinite)"

fun np_power_all :: "real list \<Rightarrow> real \<Rightarrow> py_error + real list" where
  "np_power_all [] t = Inr []"
| "np_power_all (x # xs) t =
     (case np_power x t of
        Inl e \<Rightarrow> Inl e
      | Inr y \<Rightarrow> (case np_power_all xs t of Inl e \<Rightarrow> Inl e | Inr ys \<Rightarrow> Inr (y # ys)))"

section \<open>Module constants and the module namespace\<close>

definition action_count :: nat where
  "action_count = 12"

definition max_depth_value :: real where
  "max_depth_value = 0"

text \<open>
  The names bound at module level in \<open>mcts_nn_cube.py\<close>: its imports (lines 1 to 3), its
  constants, its classes and its functions. A name used in a method body that is not a
  local is looked up here (and then among Python's builtins, which bind none of the
  names below and no \<open>rotationally_randomize\<close>).
\<close>

definition module_names :: "string list" where
  "module_names =
     [''np'', ''BatchCube'', ''position_permutations'', ''color_permutations'',
      ''opp_action_permutations'', ''warnings'',
      ''action_count'', ''constant_priors'', ''constant_value'', ''max_depth_value'',
      ''State'', ''MCTSNode'', ''MCTSAgent'', ''prob_box'', ''main'']"

section \<open>The state adapter\<close>

text \<open>
  \<open>BatchCube\<close> comes from the module \<open>batch_cube\<close>, which is not part of the sources; its
  three operations used by \<open>State\<close> are parameters. \<open>State\<close> wraps one cube:
  \<open>next\<close> copies the cube and steps the copy, \<open>key\<close> is the bytes of the cube's bit array,
  \<open>input_array\<close> is the same bit array reshaped, \<open>done\<close> is the cube's.
\<close>

record 'c cube_ops =
  cube_step :: "'c \<Rightarrow> int \<Rightarrow> 'c"
  cube_bit_array :: "'c \<Rightarrow> bool list"
  cube_done :: "'c \<Rightarrow> bool"

definition State_next :: "'c cube_ops \<Rightarrow> 'c \<Rightarrow> int \<Rightarrow> 'c" where
  "State_next ops s action = cube_step ops s action"

definition State_input_array :: "'c cube_ops \<Rightarrow> 'c \<Rightarrow> bool list" where
  "State_input_array ops s = cube_bit_array ops s"

definition State_key :: "'c cube_ops \<Rightarrow> 'c \<Rightarrow> bool list" where
  "State_key ops s = cube_bit_array ops s"

definition State_done :: "'c cube_ops \<Rightarrow> 'c \<Rightarrow> bool" where
  "State_done ops s = cube_done ops s"

section \<open>Search nodes and the agent\<close>

text \<open>
  The policy/value function maps an input array to the priors and a value. The attributes
  that \<open>MCTSNode.__init__\<close> sets only on a non-terminal node are one optional record;
  \<open>prior_probabilities\<close> is apart because the agent assigns it to its root whatever the
  root is.
\<close>

type_synonym policy_value_fn = "bool list \<Rightarrow> real list \<times> real"

record node_attrs =
  c_puct :: real
  is_leaf_node :: bool
  node_value :: real
  total_visit_counts :: int
  visit_counts :: "int list"
  total_action_values :: "real list"
  mean_action_values :: "real list"
  children :: "nat option list"

record 'c MCTSNode =
  state :: 'c
  terminal :: bool
  prior_probabilities :: "real list option"
  attrs :: "node_attrs option"

text \<open>
  The agent together with the store of node objects it works on. \<open>heap\<close> holds every node
  object; a node reference is its index. \<open>oracle_calls\<close> is not an attribute of the source:
  it counts the calls of \<open>model_policy_value\<close> made through this agent.
\<close>

record 'c MCTSAgent =
  model_policy_value :: policy_value_fn
  max_depth :: int
  total_steps :: int
  transposition_table :: "bool list \<rightharpoonup> nat"
  agent_c_puct :: real
  gamma :: real
  initial_node :: nat
  shortest_path :: int
  heap :: "'c MCTSNode list"
  oracle_calls :: nat

definition get_node :: "'c MCTSAgent \<Rightarrow> nat \<Rightarrow> py_error + 'c MCTSNode" where
  "get_node ag r = (if r < length (heap ag) then Inr (heap ag ! r) else Inl InvalidReference)"

definition set_attrs :: "'c MCTSAgent \<Rightarrow> nat \<Rightarrow> node_attrs \<Rightarrow> 'c MCTSAgent" where
  "set_attrs ag r st = ag\<lparr>heap := (heap ag)[r := (heap ag ! r)\<lparr>attrs := Some st\<rparr>]\<rparr>"

text \<open>\<open>MCTSNode.__init__\<close>: the new node object and the number of oracle calls made.\<close>

definition MCTSNode_init :: "'c cube_ops \<Rightarrow> policy_value_fn \<Rightarrow> real \<Rightarrow> 'c \<Rightarrow> 'c MCTSNode \<times> nat" where
  "MCTSNode_init ops mpv cp s =
     (if State_done ops s then
        (\<lparr>state = s, terminal = True, prior_probabilities = None, attrs = None\<rparr>, 0)
      else
        (let pv = mpv (State_input_array ops s) in
         (\<lparr>state = s, terminal = False, prior_probabilities = Some (fst pv),
           attrs = Some \<lparr>c_puct = cp, is_leaf_node = True, node_value = snd pv,
                         total_visit_counts = 0,
                         visit_counts = replicate action_count 0,
                         total_action_values = replicate action_count 0,
                         mean_action_values = replicate action_count 0,
                         children = replicate action_count None\<rparr>\<rparr>, 1)))"

definition upper_confidence_bounds :: "node_attrs \<Rightarrow> real list \<Rightarrow> py_error + real list" where
  "upper_confidence_bounds st pri =
     (case np_sqrt (total_visit_counts st) of
        Inl e \<Rightarrow> Inl e
      | Inr r \<Rightarrow>
          np_divide (map (\<lambda>p. (node_value st * c_puct st * r) * p) pri)
                    (map (\<lambda>v. real_of_int (1 + v)) (visit_counts st)))"

text \<open>
  Line 110 of the source: the action that \<open>select_leaf_and_update\<close> follows,
  \<open>np.argmax(self.mean_action_values + self.upper_confidence_bounds())\<close>.
\<close>

definition choose_action :: "node_attrs \<Rightarrow> real list \<Rightarrow> py_error + nat" where
  "choose_action st pri =
     (case upper_confidence_bounds st pri of
        Inl e \<Rightarrow> Inl e
      | Inr ucb \<Rightarrow>
     (case np_broadcast (+) (mean_action_values st) ucb of
        Inl e \<Rightarrow> Inl e
      | Inr scores \<Rightarrow> np_argmax scores))"

text \<open>Lines 113 and 114: the visit is counted before the recursive call.\<close>

definition count_visit :: "node_attrs \<Rightarrow> nat \<Rightarrow> node_attrs" where
  "count_visit st action =
     st\<lparr>total_visit_counts := total_visit_counts st + 1,
        visit_counts := (visit_counts st)[action := visit_counts st ! action + 1]\<rparr>"

definition child :: "'c cube_ops \<Rightarrow> 'c MCTSAgent \<Rightarrow> nat \<Rightarrow> int \<Rightarrow> py_error + (nat \<times> 'c MCTSAgent)" where
  "child ops ag self action =
     (case get_node ag self of
        Inl e \<Rightarrow> Inl e
      | Inr node \<Rightarrow>
     (case attrs node of
        None \<Rightarrow> Inl AttributeError
      | Some st \<Rightarrow>
     (case py_index (length (children st)) action of
        None \<Rightarrow> Inl IndexError
      | Some i \<Rightarrow>
     (case children st ! i of
        Some child_node \<Rightarrow> Inr (child_node, ag)
      | None \<Rightarrow>
          (let next_state = State_next ops (state node) action;
               key = State_key ops next_state
           in case transposition_table ag key of
                Some n \<Rightarrow> Inr (n, set_attrs ag self (st\<lparr>children := (children st)[i := Some n]\<rparr>))
              | None \<Rightarrow>
                  (let nk = MCTSNode_init ops (model_policy_value ag) (agent_c_puct ag) next_state;
                       new_node = length (heap ag);
                       ag1 = ag\<lparr>heap := heap ag @ [fst nk],
                                oracle_calls := oracle_calls ag + snd nk\<rparr>;
                       ag2 = set_attrs ag1 self (st\<lparr>children := (children st)[i := Some new_node]\<rparr>)
                   in Inr (new_node,
                           ag2\<lparr>transposition_table := (transposition_table ag2)(key \<mapsto> new_node)\<rparr>)))))))"

text \<open>
  The last three statements of \<open>select_leaf_and_update\<close>, after the recursive call has
  returned: they read the node's arrays as they are then.
\<close>

definition backup :: "'c MCTSAgent \<Rightarrow> nat \<Rightarrow> nat \<Rightarrow> real \<Rightarrow> py_error + (real \<times> 'c MCTSAgent)" where
  "backup ag self action action_value =
     (case get_node ag self of
        Inl e \<Rightarrow> Inl e
      | Inr node \<Rightarrow>
     (case attrs node of
        None \<Rightarrow> Inl AttributeError
      | Some st \<Rightarrow>
          if \<not> action < length (total_action_values st) then Inl IndexError
          else if \<not> action < length (visit_counts st) then Inl IndexError
          else if visit_counts st ! action = 0 then Inl NonFinite
          else if \<not> action < length (mean_action_values st) then Inl IndexError
          else
            (let total = total_action_values st ! action + action_value
             in Inr (action_value,
                     set_attrs ag self
                       (st\<lparr>total_action_values := (total_action_values st)[action := total],
                           mean_action_values :=
                             (mean_action_values st)
                               [action := total / real_of_int (visit_counts st ! action)]\<rparr>)))))"

text \<open>
  \<open>select_leaf_and_update\<close>. The first argument is the number of Python stack frames left:
  the recursion is as deep as the path it follows, and Python raises \<open>RecursionError\<close> when
  the frames run out. \<open>d\<close> is the parameter that the source calls \<open>max_depth\<close>.
\<close>

fun select_leaf_and_update ::
  "nat \<Rightarrow> 'c cube_ops \<Rightarrow> 'c MCTSAgent \<Rightarrow> nat \<Rightarrow> int \<Rightarrow> py_error + (real \<times> 'c MCTSAgent)" where
  "select_leaf_and_update 0 ops ag self d = Inl RecursionError"
| "select_leaf_and_update (Suc frames) ops ag self d =
     (case get_node ag self of
        Inl e \<Rightarrow> Inl e
      | Inr node \<Rightarrow>
     if terminal node then
       (let depth = max_depth ag - d
        in Inr (1, if depth < shortest_path ag then ag\<lparr>shortest_path := depth\<rparr> else ag))
     else
     (case attrs node of
        None \<Rightarrow> Inl AttributeError
      | Some st \<Rightarrow>
     if is_leaf_node st then
       Inr (node_value st, set_attrs ag self (st\<lparr>is_leaf_node := False\<rparr>))
     else if d = 0 then Inr (max_depth_value, ag)
     else
     (case prior_probabilities node of
        None \<Rightarrow> Inl AttributeError
      | Some pri \<Rightarrow>
     (case choose_action st pri of
        Inl e \<Rightarrow> Inl e
      | Inr action \<Rightarrow>
     if \<not> action < length (visit_counts st) then Inl IndexError
     else
     (case child ops (set_attrs ag self (count_visit st action)) self (int action) of
        Inl e \<Rightarrow> Inl e
      | Inr (c, ag2) \<Rightarrow>
     (case select_leaf_and_update frames ops ag2 c (d - 1) of
        Inl e \<Rightarrow> Inl e
      | Inr (v, ag3) \<Rightarrow> backup ag3 self action (gamma ag3 * v)))))))"

text \<open>
  \<open>action_visit_counts\<close> and \<open>action_probabilities\<close> of a node. The inner \<open>None\<close> is
  Python's \<open>None\<close>.
\<close>

definition node_action_visit_counts :: "'c MCTSNode \<Rightarrow> py_error + int list" where
  "node_action_visit_counts node =
     (if terminal node then Inr (replicate action_count 0)
      else case attrs node of
             None \<Rightarrow> Inl AttributeError
           | Some st \<Rightarrow> if is_leaf_node st then Inr (replicate action_count 0)
                        else Inr (visit_counts st))"

definition node_action_probabilities :: "'c MCTSNode \<Rightarrow> real \<Rightarrow> py_error + real list option" where
  "node_action_probabilities node inv_temp =
     (if terminal node then Inr None
      else case attrs node of
             None \<Rightarrow> Inl AttributeError
           | Some st \<Rightarrow>
               if is_leaf_node st then Inr None
               else
                 (let total = real_of_int (sum_list (visit_counts st));
                      counts = map real_of_int (visit_counts st)
                  in if inv_temp = 1 then
                       (case np_divide counts [total] of
                          Inl e \<Rightarrow> Inl e
                        | Inr p \<Rightarrow> Inr (Some p))
                     else
                       (case np_divide counts [total] of
                          Inl e \<Rightarrow> Inl e
                        | Inr p \<Rightarrow>
                       (case np_power_all p inv_temp of
                          Inl e \<Rightarrow> Inl e
                        | Inr ex \<Rightarrow>
                       (case np_divide ex [sum_list ex] of
                          Inl e \<Rightarrow> Inl e
                        | Inr q \<Rightarrow> Inr (Some q))))))"

text \<open>
  \<open>MCTSAgent.__init__\<close>. \<open>names\<close> is the namespace in which the body resolves the name
  \<open>rotationally_randomize\<close>, and \<open>rr\<close> what the name is bound to when it is bound.
  \<open>table\<close> is the \<open>transposition_table\<close> argument and \<open>h0\<close> the node objects that exist
  already (the ones the table refers to); \<open>noise\<close> is the sample drawn from
  \<open>np.random.dirichlet\<close>.
\<close>

definition root_noise :: "real list \<Rightarrow> real list \<Rightarrow> py_error + real list" where
  "root_noise raw noise = np_broadcast (+) (map (\<lambda>p. 0.75 * p) raw) (map (\<lambda>x. 0.25 * x) noise)"

definition MCTSAgent_init ::
  "string list \<Rightarrow> (policy_value_fn \<Rightarrow> policy_value_fn) \<Rightarrow> 'c cube_ops \<Rightarrow> policy_value_fn \<Rightarrow> 'c \<Rightarrow> int \<Rightarrow>
   (bool list \<rightharpoonup> nat) \<Rightarrow> 'c MCTSNode list \<Rightarrow> real \<Rightarrow> real \<Rightarrow> real list \<Rightarrow> py_error + 'c MCTSAgent" where
  "MCTSAgent_init names rr ops mpv initial_state maxd table h0 cp g noise =
     (if ''rotationally_randomize'' \<notin> set names then Inl NameError
      else
        (let wrapped = rr mpv;
             nk = MCTSNode_init ops wrapped cp initial_state;
             raw = fst (wrapped (State_input_array ops (state (fst nk))))
         in case root_noise raw noise of
              Inl e \<Rightarrow> Inl e
            | Inr pri \<Rightarrow>
                Inr \<lparr>model_policy_value = wrapped, max_depth = maxd, total_steps = 0,
                     transposition_table = table, agent_c_puct = cp, gamma = g,
                     initial_node = length h0, shortest_path = maxd + 1,
                     heap = h0 @ [(fst nk)\<lparr>prior_probabilities := Some pri\<rparr>],
                     oracle_calls = snd nk + 1\<rparr>))"

fun search_loop :: "nat \<Rightarrow> 'c cube_ops \<Rightarrow> 'c MCTSAgent \<Rightarrow> nat \<Rightarrow> py_error + 'c MCTSAgent" where
  "search_loop frames ops ag 0 = Inr ag"
| "search_loop frames ops ag (Suc n) =
     (case select_leaf_and_update frames ops ag (initial_node ag) (max_depth ag) of
        Inl e \<Rightarrow> Inl e
      | Inr (v, ag1) \<Rightarrow> search_loop frames ops (ag1\<lparr>total_steps := total_steps ag1 + 1\<rparr>) n)"

definition search :: "nat \<Rightarrow> 'c cube_ops \<Rightarrow> 'c MCTSAgent \<Rightarrow> int \<Rightarrow> py_error + 'c MCTSAgent" where
  "search frames ops ag steps = search_loop frames ops ag (nat steps)"

definition action_visit_counts :: "'c MCTSAgent \<Rightarrow> py_error + int list" where
  "action_visit_counts ag =
     (case get_node ag (initial_node ag) of
        Inl e \<Rightarrow> Inl e
      | Inr node \<Rightarrow> node_action_visit_counts node)"

definition action_probabilities :: "'c MCTSAgent \<Rightarrow> real \<Rightarrow> py_error + real list option" where
  "action_probabilities ag inv_temp =
     (case get_node ag (initial_node ag) of
        Inl e \<Rightarrow> Inl e
      | Inr node \<Rightarrow> node_action_probabilities node inv_temp)"

definition is_terminal :: "'c MCTSAgent \<Rightarrow> py_error + bool" where
  "is_terminal ag =
     (case get_node ag (initial_node ag) of
        Inl e \<Rightarrow> Inl e
      | Inr node \<Rightarrow> Inr (terminal node))"

definition advance_to_action ::
  "'c cube_ops \<Rightarrow> 'c MCTSAgent \<Rightarrow> int \<Rightarrow> real list \<Rightarrow> py_error + 'c MCTSAgent" where
  "advance_to_action ops ag action noise =
     (case child ops ag (initial_node ag) action of
        Inl e \<Rightarrow> Inl e
      | Inr (c, ag1) \<Rightarrow>
     (case get_node ag1 c of
        Inl e \<Rightarrow> Inl e
      | Inr node \<Rightarrow>
     (case root_noise (fst (model_policy_value ag1 (State_input_array ops (state node)))) noise of
        Inl e \<Rightarrow> Inl e
      | Inr pri \<Rightarrow>
          Inr (ag1\<lparr>initial_node := c,
                   heap := (heap ag1)[c := node\<lparr>prior_probabilities := Some pri\<rparr>],
                   oracle_calls := oracle_calls ag1 + 1,
                   shortest_path := max_depth ag1 + 1\<rparr>))))"

definition advance_to_best_child ::
  "'c cube_ops \<Rightarrow> 'c MCTSAgent \<Rightarrow> real list \<Rightarrow> py_error + 'c MCTSAgent" where
  "advance_to_best_child ops ag noise =
     (case action_visit_counts ag of
        Inl e \<Rightarrow> Inl e
      | Inr counts \<Rightarrow>
     (case np_argmax counts of
        Inl e \<Rightarrow> Inl e
      | Inr best_action \<Rightarrow> advance_to_action ops ag (int best_action) noise))"

text \<open>The branch \<open>key == 'shortest_path'\<close> of \<open>MCTSAgent.stats\<close>.\<close>

definition stats_shortest_path :: "'c MCTSAgent \<Rightarrow> int" where
  "stats_shortest_path ag = (if shortest_path ag \<le> max_depth ag then shortest_path ag else - 1)"

section \<open>Notions used in the statements\<close>

text \<open>\<open>i\<close> is the first index at which \<open>xs\<close> takes its maximum.\<close>

definition is_first_argmax :: "'a::linorder list \<Rightarrow> nat \<Rightarrow> bool" where
  "is_first_argmax xs i =
     (i < length xs \<and> (\<forall>j<length xs. xs ! j \<le> xs ! i) \<and> (\<forall>j<i. xs ! j < xs ! i))"

text \<open>
  The selection score as the specification writes it, to be compared with what
  \<open>choose_action\<close> computes.
\<close>

definition score :: "node_attrs \<Rightarrow> real list \<Rightarrow> nat \<Rightarrow> real" where
  "score st pri a =
     mean_action_values st ! a
       + node_value st * c_puct st * sqrt (real_of_int (total_visit_counts st)) * pri ! a
           / (1 + real_of_int (visit_counts st ! a))"

text \<open>What a call returned, when it returned.\<close>

definition returned_value :: "py_error + (real \<times> 'c MCTSAgent) \<Rightarrow> real option" where
  "returned_value r = (case r of Inl e \<Rightarrow> None | Inr p \<Rightarrow> Some (fst p))"

text \<open>The search statistics of a node, without its links to children.\<close>

definition statistics ::
  "'c MCTSNode \<Rightarrow> (bool \<times> real \<times> int \<times> int list \<times> real list \<times> real list) option" where
  "statistics node =
     map_option
       (\<lambda>st. (is_leaf_node st, node_value st, total_visit_counts st, visit_counts st,
              total_action_values st, mean_action_values st))
       (attrs node)"

text \<open>
  A well-formed agent. The policy/value function returns one prior per action. A terminal
  node has no attributes; every other node has the attributes and the shapes that
  \<open>MCTSNode.__init__\<close> gives it, counts that are not negative, and links to nodes of the
  store; the transposition table refers to nodes of the store.
\<close>

definition node_well_formed :: "nat \<Rightarrow> 'c MCTSNode \<Rightarrow> bool" where
  "node_well_formed m node =
     (if terminal node then attrs node = None
      else
      (\<exists>st pri. attrs node = Some st \<and> prior_probabilities node = Some pri \<and>
         length pri = action_count \<and>
         length (visit_counts st) = action_count \<and>
         length (total_action_values st) = action_count \<and>
         length (mean_action_values st) = action_count \<and>
         length (children st) = action_count \<and>
         0 \<le> total_visit_counts st \<and>
         (\<forall>i<length (visit_counts st). 0 \<le> visit_counts st ! i) \<and>
         (\<forall>i<length (children st). \<forall>r. children st ! i = Some r \<longrightarrow> r < m)))"

definition well_formed :: "'c MCTSAgent \<Rightarrow> bool" where
  "well_formed ag =
     ((\<forall>x. length (fst (model_policy_value ag x)) = action_count) \<and>
      (\<forall>n<length (heap ag). node_well_formed (length (heap ag)) (heap ag ! n)) \<and>
      (\<forall>k r. transposition_table ag k = Some r \<longrightarrow> r < length (heap ag)))"

text \<open>
  From one store to a later one: the nodes that existed are still there, terminal or not
  as before, and no visit count has decreased.
\<close>

definition visits_grow :: "'c MCTSNode list \<Rightarrow> 'c MCTSNode list \<Rightarrow> bool" where
  "visits_grow h h' =
     (length h \<le> length h' \<and>
      (\<forall>n<length h. terminal (h' ! n) = terminal (h ! n) \<and>
         (\<forall>st. attrs (h ! n) = Some st \<longrightarrow>
            (\<exists>st'. attrs (h' ! n) = Some st' \<and>
               length (visit_counts st') = length (visit_counts st) \<and>
               (\<forall>i<length (visit_counts st). visit_counts st ! i \<le> visit_counts st' ! i)))))"

text \<open>
  The invariant of the statistics. \<open>P\<close> holds the pairs of a node and an action whose visit
  is counted but whose value is not backed up yet, while a simulation is under way; between
  simulations \<open>P\<close> is empty.
\<close>

definition attrs_consistent :: "(nat \<times> nat) set \<Rightarrow> nat \<Rightarrow> node_attrs \<Rightarrow> bool" where
  "attrs_consistent P n st =
     (length (total_action_values st) = length (visit_counts st) \<and>
      length (mean_action_values st) = length (visit_counts st) \<and>
      total_visit_counts st = sum_list (visit_counts st) \<and>
      (\<forall>a<length (visit_counts st). (n, a) \<notin> P \<longrightarrow> 0 < visit_counts st ! a \<longrightarrow>
         mean_action_values st ! a
           = total_action_values st ! a / real_of_int (visit_counts st ! a)))"

definition statistics_consistent :: "(nat \<times> nat) set \<Rightarrow> 'c MCTSNode list \<Rightarrow> bool" where
  "statistics_consistent P h =
     (\<forall>n<length h. \<forall>st. attrs (h ! n) = Some st \<longrightarrow> attrs_consistent P n st)"

text \<open>
  Every link from a node to a child agrees with the transposition table: the child linked
  under an action is the node that the table holds for the key of the action's outcome.
\<close>

definition links_consistent ::
  "'c cube_ops \<Rightarrow> 'c MCTSNode list \<Rightarrow> (bool list \<rightharpoonup> nat) \<Rightarrow> bool" where
  "links_consistent ops h table =
     (\<forall>n<length h. \<forall>st. attrs (h ! n) = Some st \<longrightarrow>
        (\<forall>i<length (children st). \<forall>c. children st ! i = Some c \<longrightarrow>
           table (State_key ops (State_next ops (state (h ! n)) (int i))) = Some c))"

section \<open>A small transition system\<close>

text \<open>
  Positions on a line: action 0 steps towards position 0, every other action steps away,
  and position 0 is the solved state. The policy/value function is constant, and so is the
  noise. The states below are those of an agent started two steps from the solved state,
  with \<open>max_depth = 3\<close>, \<open>c_puct = 1\<close> and \<open>gamma = 1/2\<close>, before and after each of its first
  three simulations.
\<close>

definition toy_ops :: "int cube_ops" where
  "toy_ops =
     \<lparr>cube_step = (\<lambda>s a. if a = 0 then s - 1 else s + 1),
      cube_bit_array = (\<lambda>s. replicate (nat s) True),
      cube_done = (\<lambda>s. s = 0)\<rparr>"

definition toy_policy_value :: policy_value_fn where
  "toy_policy_value x = (replicate 12 (1 / 12), 1 / 2)"

definition toy_noise :: "real list" where
  "toy_noise = replicate 12 (1 / 12)"

definition toy_names :: "string list" where
  "toy_names = ''rotationally_randomize'' # module_names"

definition toy_priors :: "real list" where
  "toy_priors = replicate 12 (1 / 12)"

definition toy_attrs ::
  "bool \<Rightarrow> int \<Rightarrow> int list \<Rightarrow> real list \<Rightarrow> real list \<Rightarrow> nat option list \<Rightarrow> node_attrs" where
  "toy_attrs leaf n vc tav mav ch =
     \<lparr>c_puct = 1, is_leaf_node = leaf, node_value = 1 / 2, total_visit_counts = n,
      visit_counts = vc, total_action_values = tav, mean_action_values = mav, children = ch\<rparr>"

definition toy_node ::
  "int \<Rightarrow> bool \<Rightarrow> int \<Rightarrow> int list \<Rightarrow> real list \<Rightarrow> real list \<Rightarrow> nat option list \<Rightarrow> int MCTSNode" where
  "toy_node s leaf n vc tav mav ch =
     \<lparr>state = s, terminal = False, prior_probabilities = Some toy_priors,
      attrs = Some (toy_attrs leaf n vc tav mav ch)\<rparr>"

definition toy_solved :: "int MCTSNode" where
  "toy_solved = \<lparr>state = 0, terminal = True, prior_probabilities = None, attrs = None\<rparr>"

definition toy_agent ::
  "int MCTSNode list \<Rightarrow> (bool list \<rightharpoonup> nat) \<Rightarrow> int \<Rightarrow> int \<Rightarrow> nat \<Rightarrow> int MCTSAgent" where
  "toy_agent h table sp steps calls =
     \<lparr>model_policy_value = toy_policy_value, max_depth = 3, total_steps = steps,
      transposition_table = table, agent_c_puct = 1, gamma = 1 / 2, initial_node = 0,
      shortest_path = sp, heap = h, oracle_calls = calls\<rparr>"

definition toy_agent0 :: "int MCTSAgent" where
  "toy_agent0 =
     toy_agent
       [toy_node 2 True 0 (replicate 12 0) (replicate 12 0) (replicate 12 0) (replicate 12 None)]
       Map.empty 4 0 2"

definition toy_agent1 :: "int MCTSAgent" where
  "toy_agent1 =
     toy_agent
       [toy_node 2 False 0 (replicate 12 0) (replicate 12 0) (replicate 12 0) (replicate 12 None)]
       Map.empty 4 1 2"

text \<open>
  In the second simulation, the state in which the root calls its child: the visit is
  counted and the child is created and linked, nothing is backed up yet.
\<close>

definition toy_agent1_linked :: "int MCTSAgent" where
  "toy_agent1_linked =
     toy_agent
       [toy_node 2 False 1 (1 # replicate 11 0) (replicate 12 0) (replicate 12 0)
          (Some 1 # replicate 11 None),
        toy_node 1 True 0 (replicate 12 0) (replicate 12 0) (replicate 12 0) (replicate 12 None)]
       [[True] \<mapsto> 1] 4 1 3"

definition toy_agent2 :: "int MCTSAgent" where
  "toy_agent2 =
     toy_agent
       [toy_node 2 False 1 (1 # replicate 11 0) (1 / 4 # replicate 11 0) (1 / 4 # replicate 11 0)
          (Some 1 # replicate 11 None),
        toy_node 1 False 0 (replicate 12 0) (replicate 12 0) (replicate 12 0) (replicate 12 None)]
       [[True] \<mapsto> 1] 4 2 3"

definition toy_agent3 :: "int MCTSAgent" where
  "toy_agent3 =
     toy_agent
       [toy_node 2 False 2 (2 # replicate 11 0) (1 / 2 # replicate 11 0) (1 / 4 # replicate 11 0)
          (Some 1 # replicate 11 None),
        toy_node 1 False 1 (1 # replicate 11 0) (1 / 2 # replicate 11 0) (1 / 2 # replicate 11 0)
          (Some 2 # replicate 11 None),
        toy_solved]
       [[True] \<mapsto> 1, [] \<mapsto> 2] 2 3 3"

text \<open>
  The state after the third simulation once the node of position 1 has been asked for its
  child under action 1: a second node for position 2 exists, besides the root.
\<close>

definition toy_agent4 :: "int MCTSAgent" where
  "toy_agent4 =
     toy_agent
       [toy_node 2 False 2 (2 # replicate 11 0) (1 / 2 # replicate 11 0) (1 / 4 # replicate 11 0)
          (Some 1 # replicate 11 None),
        toy_node 1 False 1 (1 # replicate 11 0) (1 / 2 # replicate 11 0) (1 / 2 # replicate 11 0)
          (Some 2 # Some 3 # replicate 10 None),
        toy_solved,
        toy_node 2 True 0 (replicate 12 0) (replicate 12 0) (replicate 12 0) (replicate 12 None)]
       [[True] \<mapsto> 1, [] \<mapsto> 2, [True, True] \<mapsto> 3] 2 3 4"

text \<open>An agent whose initial state is the solved state.\<close>

definition toy_agent_solved :: "int MCTSAgent" where
  "toy_agent_solved =
     toy_agent [toy_solved\<lparr>prior_probabilities := Some toy_priors\<rparr>] Map.empty 4 0 1"

section \<open>Evaluating the small transition system\<close>

lemmas toy_defs =
  toy_ops_def toy_policy_value_def toy_noise_def toy_names_def toy_priors_def toy_attrs_def
  toy_node_def toy_solved_def toy_agent_def toy_agent0_def toy_agent1_def
  toy_agent1_linked_def toy_agent2_def toy_agent3_def toy_agent4_def toy_agent_solved_def

lemmas model_defs =
  MCTSAgent_init_def module_names_def MCTSNode_init_def State_done_def State_input_array_def
  State_next_def State_key_def root_noise_def np_broadcast_def action_count_def get_node_def
  set_attrs_def upper_confidence_bounds_def np_sqrt_def np_divide_def np_argmax_def
  choose_action_def count_visit_def child_def backup_def py_index_def max_depth_value_def
  search_def action_probabilities_def node_action_probabilities_def action_visit_counts_def
  node_action_visit_counts_def is_terminal_def stats_shortest_path_def Let_def

lemma toy_init:
  "MCTSAgent_init toy_names id toy_ops toy_policy_value 2 3 Map.empty [] 1 (1 / 2) toy_noise
     = Inr toy_agent0"
  by (simp add: toy_defs model_defs)

lemma toy_init_solved:
  "MCTSAgent_init toy_names id toy_ops toy_policy_value 0 3 Map.empty [] 1 (1 / 2) toy_noise
     = Inr toy_agent_solved"
  by (simp add: toy_defs model_defs)

lemma toy_simulation1:
  "select_leaf_and_update 4 toy_ops toy_agent0 0 3 = Inr (1 / 2, toy_agent1\<lparr>total_steps := 0\<rparr>)"
  by (simp add: toy_defs model_defs numeral_eq_Suc)

lemma toy_simulation2:
  "select_leaf_and_update 4 toy_ops toy_agent1 0 3 = Inr (1 / 4, toy_agent2\<lparr>total_steps := 1\<rparr>)"
  by (simp add: toy_defs model_defs numeral_eq_Suc)

lemma toy_simulation3:
  "select_leaf_and_update 4 toy_ops toy_agent2 0 3 = Inr (1 / 4, toy_agent3\<lparr>total_steps := 2\<rparr>)"
  by (simp add: toy_defs model_defs numeral_eq_Suc)

lemma toy_search3: "search 4 toy_ops toy_agent0 3 = Inr toy_agent3"
  by (simp add: toy_defs model_defs numeral_eq_Suc)

lemma toy_second_node: "child toy_ops toy_agent3 1 1 = Inr (3, toy_agent4)"
  by (simp add: toy_defs model_defs numeral_eq_Suc)

lemma toy_advance:
  "advance_to_action toy_ops toy_agent3 0 toy_noise
     = Inr (toy_agent3\<lparr>initial_node := 1, shortest_path := 4, oracle_calls := 4\<rparr>)"
  by (simp add: toy_defs model_defs advance_to_action_def numeral_eq_Suc)

lemma toy_agent0_well_formed: "well_formed toy_agent0"
  by (simp add: well_formed_def node_well_formed_def toy_defs action_count_def)

lemma toy_agent1_well_formed: "well_formed toy_agent1"
  by (simp add: well_formed_def node_well_formed_def toy_defs action_count_def)

section \<open>\<open>np.argmax\<close> returns the first index of the maximum\<close>

lemma argmax_from_spec:
  assumes "i = length pre" "best < i" "pre ! best = bv"
    "\<forall>j<length pre. pre ! j \<le> bv" "\<forall>j<best. pre ! j < bv"
  shows "is_first_argmax (pre @ xs) (argmax_from best bv i xs)"
  using assms
proof (induction xs arbitrary: pre best bv i)
  case Nil
  then show ?case by (simp add: is_first_argmax_def)
next
  case (Cons x xs)
  show ?case
  proof (cases "bv < x")
    case True
    have "is_first_argmax ((pre @ [x]) @ xs) (argmax_from i x (Suc i) xs)"
    proof (rule Cons.IH)
      show "Suc i = length (pre @ [x])" using Cons.prems by simp
      show "i < Suc i" by simp
      show "(pre @ [x]) ! i = x" using Cons.prems by simp
      show "\<forall>j<length (pre @ [x]). (pre @ [x]) ! j \<le> x"
      proof (intro allI impI)
        fix j assume "j < length (pre @ [x])"
        show "(pre @ [x]) ! j \<le> x"
        proof (cases "j < length pre")
          case True
          then have "pre ! j \<le> bv" using Cons.prems by simp
          with \<open>bv < x\<close> True show ?thesis by (simp add: nth_append)
        next
          case False
          with \<open>j < length (pre @ [x])\<close> have "j = length pre" by simp
          then show ?thesis by simp
        qed
      qed
      show "\<forall>j<i. (pre @ [x]) ! j < x"
      proof (intro allI impI)
        fix j assume "j < i"
        then have "pre ! j \<le> bv" "j < length pre" using Cons.prems by simp_all
        with \<open>bv < x\<close> show "(pre @ [x]) ! j < x" by (simp add: nth_append)
      qed
    qed
    with True show ?thesis by simp
  next
    case False
    have "is_first_argmax ((pre @ [x]) @ xs) (argmax_from best bv (Suc i) xs)"
    proof (rule Cons.IH)
      show "Suc i = length (pre @ [x])" using Cons.prems by simp
      show "best < Suc i" using Cons.prems by simp
      show "(pre @ [x]) ! best = bv" using Cons.prems by (simp add: nth_append)
      show "\<forall>j<length (pre @ [x]). (pre @ [x]) ! j \<le> bv"
        using Cons.prems False by (auto simp: nth_append less_Suc_eq)
      show "\<forall>j<best. (pre @ [x]) ! j < bv"
        using Cons.prems by (auto simp: nth_append)
    qed
    with False show ?thesis by simp
  qed
qed

lemma np_argmax_first:
  assumes "np_argmax xs = Inr a"
  shows "is_first_argmax xs a"
proof (cases xs)
  case Nil
  with assms show ?thesis by (simp add: np_argmax_def)
next
  case (Cons x rest)
  have "is_first_argmax ([x] @ rest) (argmax_from 0 x 1 rest)"
    by (rule argmax_from_spec) simp_all
  with assms Cons show ?thesis by (simp add: np_argmax_def)
qed

lemma np_argmax_nonempty: "xs \<noteq> [] \<Longrightarrow> \<exists>a. np_argmax xs = Inr a"
  by (cases xs) (simp_all add: np_argmax_def)

lemma np_divide_same_length:
  assumes "length xs = length ys" "\<forall>y\<in>set ys. y \<noteq> 0"
  shows "np_divide xs ys = Inr (map (\<lambda>i. xs ! i / ys ! i) [0..<length xs])"
proof -
  have "\<not> list_ex (\<lambda>p. snd p = 0) (zip xs ys)"
    using assms(2) by (auto simp: list_ex_iff dest: set_zip_rightD)
  moreover have "map (\<lambda>p. fst p / snd p) (zip xs ys) = map (\<lambda>i. xs ! i / ys ! i) [0..<length xs]"
    using assms(1) by (intro nth_equalityI) simp_all
  ultimately show ?thesis
    using assms(1) by (simp add: np_divide_def np_broadcast_def)
qed

section \<open>The calls, case by case\<close>

text \<open>
  What is known when a call has returned: one case per path through the body of
  \<open>select_leaf_and_update\<close>, of \<open>child\<close> and of the statements of the backup.
\<close>

lemma set_attrs_fields [simp]:
  "model_policy_value (set_attrs ag r st) = model_policy_value ag"
  "max_depth (set_attrs ag r st) = max_depth ag"
  "total_steps (set_attrs ag r st) = total_steps ag"
  "transposition_table (set_attrs ag r st) = transposition_table ag"
  "agent_c_puct (set_attrs ag r st) = agent_c_puct ag"
  "gamma (set_attrs ag r st) = gamma ag"
  "initial_node (set_attrs ag r st) = initial_node ag"
  "shortest_path (set_attrs ag r st) = shortest_path ag"
  "oracle_calls (set_attrs ag r st) = oracle_calls ag"
  "length (heap (set_attrs ag r st)) = length (heap ag)"
  by (simp_all add: set_attrs_def)

lemma heap_set_attrs:
  "heap (set_attrs ag r st) = (heap ag)[r := (heap ag ! r)\<lparr>attrs := Some st\<rparr>]"
  by (simp add: set_attrs_def)

lemma get_node_Inr:
  "get_node ag r = Inr node \<longleftrightarrow> r < length (heap ag) \<and> heap ag ! r = node"
  by (auto simp: get_node_def)

lemma py_index_less: "py_index n a = Some i \<Longrightarrow> i < n"
  by (auto simp: py_index_def split: if_splits)

lemma py_index_nonneg: "py_index n a = Some i \<Longrightarrow> 0 \<le> a \<Longrightarrow> int i = a"
  by (auto simp: py_index_def split: if_splits)

lemma py_index_in_range: "i < n \<Longrightarrow> py_index n (int i) = Some i"
  by (simp add: py_index_def)

lemma select_cases [consumes 1, case_names terminal leaf depth0 step]:
  assumes "select_leaf_and_update (Suc frames) ops ag self d = Inr (v, ag')"
  obtains
    (terminal) node where "get_node ag self = Inr node" "terminal node" "v = 1"
      "ag' = ag\<lparr>shortest_path := min (shortest_path ag) (max_depth ag - d)\<rparr>"
  | (leaf) node st where "get_node ag self = Inr node" "\<not> terminal node"
      "attrs node = Some st" "is_leaf_node st" "v = node_value st"
      "ag' = set_attrs ag self (st\<lparr>is_leaf_node := False\<rparr>)"
  | (depth0) node st where "get_node ag self = Inr node" "\<not> terminal node"
      "attrs node = Some st" "\<not> is_leaf_node st" "d = 0" "v = max_depth_value" "ag' = ag"
  | (step) node st pri a c ag2 w ag3 where "get_node ag self = Inr node" "\<not> terminal node"
      "attrs node = Some st" "\<not> is_leaf_node st" "d \<noteq> 0"
      "prior_probabilities node = Some pri" "choose_action st pri = Inr a"
      "a < length (visit_counts st)"
      "child ops (set_attrs ag self (count_visit st a)) self (int a) = Inr (c, ag2)"
      "select_leaf_and_update frames ops ag2 c (d - 1) = Inr (w, ag3)"
      "backup ag3 self a (gamma ag3 * w) = Inr (v, ag')"
  using assms
  by (auto simp: Let_def min_def split: sum.splits option.splits if_splits prod.splits)

lemma child_cases [consumes 1, case_names linked table fresh]:
  assumes "child ops ag self action = Inr (c, ag')"
  obtains
    (linked) node st i where "get_node ag self = Inr node" "attrs node = Some st"
      "py_index (length (children st)) action = Some i" "children st ! i = Some c" "ag' = ag"
  | (table) node st i where "get_node ag self = Inr node" "attrs node = Some st"
      "py_index (length (children st)) action = Some i" "children st ! i = None"
      "transposition_table ag (State_key ops (State_next ops (state node) action)) = Some c"
      "ag' = set_attrs ag self (st\<lparr>children := (children st)[i := Some c]\<rparr>)"
  | (fresh) node st i where "get_node ag self = Inr node" "attrs node = Some st"
      "py_index (length (children st)) action = Some i" "children st ! i = None"
      "transposition_table ag (State_key ops (State_next ops (state node) action)) = None"
      "c = length (heap ag)"
      "ag' = (set_attrs
                (ag\<lparr>heap := heap ag @
                        [fst (MCTSNode_init ops (model_policy_value ag) (agent_c_puct ag)
                               (State_next ops (state node) action))],
                    oracle_calls := oracle_calls ag +
                        snd (MCTSNode_init ops (model_policy_value ag) (agent_c_puct ag)
                               (State_next ops (state node) action))\<rparr>)
                self (st\<lparr>children := (children st)[i := Some c]\<rparr>))
             \<lparr>transposition_table :=
                (transposition_table ag)
                  (State_key ops (State_next ops (state node) action) \<mapsto> c)\<rparr>"
proof -
  from assms obtain node where n: "get_node ag self = Inr node"
    by (auto simp: child_def split: sum.splits)
  from assms n obtain st where st: "attrs node = Some st"
    by (auto simp: child_def split: option.splits)
  from assms n st obtain i where i: "py_index (length (children st)) action = Some i"
    by (auto simp: child_def split: option.splits)
  show thesis
  proof (cases "children st ! i")
    case (Some c')
    with assms n st i have "c' = c" "ag' = ag" by (simp_all add: child_def)
    with Some n st i show thesis by (intro linked) simp_all
  next
    case None
    show thesis
    proof (cases "transposition_table ag (State_key ops (State_next ops (state node) action))")
      case (Some c')
      with assms n st i None have "c' = c"
        "ag' = set_attrs ag self (st\<lparr>children := (children st)[i := Some c]\<rparr>)"
        by (auto simp: child_def Let_def)
      with Some None n st i show thesis by (intro table) simp_all
    next
      case nt: None
      with assms n st i None show thesis
        by (intro fresh) (auto simp: child_def Let_def)
    qed
  qed
qed

lemma backup_cases [consumes 1]:
  assumes "backup ag self a x = Inr (v, ag')"
  obtains node st where "get_node ag self = Inr node" "attrs node = Some st"
    "a < length (total_action_values st)" "a < length (visit_counts st)"
    "a < length (mean_action_values st)" "visit_counts st ! a \<noteq> 0" "v = x"
    "ag' = set_attrs ag self
             (st\<lparr>total_action_values := (total_action_values st)[a := total_action_values st ! a + x],
                 mean_action_values :=
                   (mean_action_values st)
                     [a := (total_action_values st ! a + x) / real_of_int (visit_counts st ! a)]\<rparr>)"
  using assms
  by (auto simp: backup_def Let_def split: sum.splits option.splits if_splits)

text \<open>
  No call changes the parameters of the agent or its root, the store only grows, and the
  shortest path found only decreases.
\<close>

lemma child_frame:
  assumes "child ops ag self action = Inr (c, ag')"
  shows "model_policy_value ag' = model_policy_value ag \<and> max_depth ag' = max_depth ag \<and>
         total_steps ag' = total_steps ag \<and> agent_c_puct ag' = agent_c_puct ag \<and>
         gamma ag' = gamma ag \<and> initial_node ag' = initial_node ag \<and>
         shortest_path ag' = shortest_path ag \<and> length (heap ag) \<le> length (heap ag')"
  using assms by (cases rule: child_cases) simp_all

lemma backup_frame:
  assumes "backup ag self a x = Inr (v, ag')"
  shows "model_policy_value ag' = model_policy_value ag \<and> max_depth ag' = max_depth ag \<and>
         total_steps ag' = total_steps ag \<and> agent_c_puct ag' = agent_c_puct ag \<and>
         gamma ag' = gamma ag \<and> initial_node ag' = initial_node ag \<and>
         shortest_path ag' = shortest_path ag \<and> length (heap ag') = length (heap ag) \<and>
         transposition_table ag' = transposition_table ag \<and> oracle_calls ag' = oracle_calls ag"
  using assms by (cases rule: backup_cases) simp_all

lemma select_frame:
  assumes "select_leaf_and_update frames ops ag self d = Inr (v, ag')"
  shows "model_policy_value ag' = model_policy_value ag \<and> max_depth ag' = max_depth ag \<and>
         total_steps ag' = total_steps ag \<and> agent_c_puct ag' = agent_c_puct ag \<and>
         gamma ag' = gamma ag \<and> initial_node ag' = initial_node ag \<and>
         shortest_path ag' \<le> shortest_path ag \<and> length (heap ag) \<le> length (heap ag')"
  using assms
proof (induction frames arbitrary: ag self d v ag')
  case 0
  then show ?case by simp
next
  case (Suc frames)
  from Suc.prems show ?case
  proof (cases rule: select_cases)
    case (terminal node)
    then show ?thesis by simp
  next
    case (leaf node st)
    then show ?thesis by simp
  next
    case (depth0 node st)
    then show ?thesis by simp
  next
    case (step node st pri a c ag2 w ag3)
    from child_frame [OF step(9)] Suc.IH [OF step(10)] backup_frame [OF step(11)]
    show ?thesis by simp
  qed
qed

section \<open>Construction\<close>

text \<open>
  C1. Constructing an agent in the namespace of the module always fails: the first
  statement of \<open>MCTSAgent.__init__\<close> looks up \<open>rotationally_randomize\<close>, which the module
  neither defines nor imports, so whatever the arguments are the result is a
  \<open>NameError\<close> and no agent exists on which to search, advance or ask for statistics.
\<close>

theorem MCTSAgent_init_NameError:
  "MCTSAgent_init module_names rr ops mpv initial_state maxd table h0 cp g noise = Inl NameError"
  by (simp add: MCTSAgent_init_def module_names_def)

text \<open>
  The rest of this section is about a namespace that does bind \<open>rotationally_randomize\<close>.

  When the noise and the priors have the same shape, the root noise is the pointwise
  combination that the source writes.
\<close>

lemma root_noise_same_length:
  assumes "length noise = length raw"
  shows "root_noise raw noise = Inr (map2 (\<lambda>p x. 0.75 * p + 0.25 * x) raw noise)"
proof -
  have "map2 (+) (map (\<lambda>p. 0.75 * p) raw) (map (\<lambda>x. 0.25 * x) noise)
          = map2 (\<lambda>p x. 0.75 * p + 0.25 * x) raw noise"
    using assms by (intro nth_equalityI) simp_all
  with assms show ?thesis by (simp add: root_noise_def np_broadcast_def)
qed

text \<open>
  C2, as the source has it. For an initial state that is already terminal, constructing
  the node makes no call of the policy/value function and sets no statistics; the
  constructor of the agent then makes one call, for the root noise, which it computes
  whatever the root is, and assigns the noised priors to the terminal root. The agent is
  terminal and \<open>action_probabilities\<close> returns \<open>None\<close>.
\<close>

theorem terminal_root_construction:
  assumes "''rotationally_randomize'' \<in> set names" "State_done ops initial_state"
    "root_noise (fst (rr mpv (State_input_array ops initial_state))) noise = Inr pri"
  shows "\<exists>ag. MCTSAgent_init names rr ops mpv initial_state maxd table h0 cp g noise = Inr ag \<and>
           snd (MCTSNode_init ops (rr mpv) cp initial_state) = 0 \<and>
           oracle_calls ag = 1 \<and>
           get_node ag (initial_node ag)
             = Inr \<lparr>state = initial_state, terminal = True, prior_probabilities = Some pri,
                    attrs = None\<rparr> \<and>
           is_terminal ag = Inr True \<and>
           action_probabilities ag inv_temp = Inr None"
  using assms
  by (simp add: MCTSAgent_init_def MCTSNode_init_def Let_def get_node_def is_terminal_def
      action_probabilities_def node_action_probabilities_def)

theorem terminal_root_construction_witness:
  "\<exists>ag. MCTSAgent_init toy_names id toy_ops toy_policy_value 0 3 Map.empty [] 1 (1 / 2) toy_noise
           = Inr ag \<and>
        snd (MCTSNode_init toy_ops (id toy_policy_value) 1 0) = 0 \<and>
        oracle_calls ag = 1 \<and>
        get_node ag (initial_node ag)
          = Inr \<lparr>state = 0, terminal = True, prior_probabilities = Some toy_priors,
                 attrs = None\<rparr> \<and>
        is_terminal ag = Inr True \<and>
        action_probabilities ag 1 = Inr None"
proof -
  have 1: "''rotationally_randomize'' \<in> set toy_names" by (simp add: toy_defs)
  have 2: "State_done toy_ops 0" by (simp add: toy_defs State_done_def)
  have 3: "root_noise (fst (id toy_policy_value (State_input_array toy_ops 0))) toy_noise
             = Inr toy_priors"
    by (simp add: toy_defs root_noise_def np_broadcast_def)
  from terminal_root_construction [where rr = id and mpv = toy_policy_value, OF 1 2 3]
  show ?thesis .
qed

text \<open>
  The claim as the specification words it (no call at all, and a terminal root without
  priors) fails on the solved state of the small system: one call is counted and the
  root has priors.
\<close>

theorem terminal_root_oracle_call_counterexample:
  "State_done toy_ops 0 \<and>
   MCTSAgent_init toy_names id toy_ops toy_policy_value 0 3 Map.empty [] 1 (1 / 2) toy_noise
     = Inr toy_agent_solved \<and>
   oracle_calls toy_agent_solved = 1 \<and>
   prior_probabilities (heap toy_agent_solved ! initial_node toy_agent_solved) = Some toy_priors"
  by (simp add: toy_defs model_defs)

section \<open>One simulation\<close>

text \<open>
  C7. A call of \<open>select_leaf_and_update\<close> on a terminal node returns 1 and records
  \<open>max_depth\<close> minus the remaining depth budget in the agent's \<open>shortest_path\<close> when that is
  smaller than what is recorded, so the recorded value is the minimum over the calls made
  (by \<open>select_frame\<close> no other path through a simulation raises it).
  \<open>stats('shortest_path')\<close> is the recorded value when it is at most \<open>max_depth\<close> and \<open>-1\<close>
  otherwise, in particular while the value is still the \<open>max_depth + 1\<close> set when the root
  was chosen.
\<close>

theorem terminal_node_records_shortest_path:
  assumes "get_node ag self = Inr node" "terminal node"
  shows "select_leaf_and_update (Suc frames) ops ag self d
           = Inr (1, ag\<lparr>shortest_path := min (shortest_path ag) (max_depth ag - d)\<rparr>) \<and>
         stats_shortest_path ag
           = (if shortest_path ag \<le> max_depth ag then shortest_path ag else - 1) \<and>
         stats_shortest_path (ag\<lparr>shortest_path := max_depth ag + 1\<rparr>) = - 1"
  using assms by (simp add: stats_shortest_path_def min_def)

theorem terminal_node_records_shortest_path_witness:
  "select_leaf_and_update (Suc 0) toy_ops (toy_agent3\<lparr>shortest_path := 4\<rparr>) 2 1
     = Inr (1, toy_agent3) \<and>
   stats_shortest_path toy_agent3 = 2 \<and>
   stats_shortest_path (toy_agent3\<lparr>shortest_path := 4\<rparr>) = - 1"
  using terminal_node_records_shortest_path
    [of "toy_agent3\<lparr>shortest_path := 4\<rparr>" 2 toy_solved 0 toy_ops 1]
  by (simp add: toy_defs get_node_def stats_shortest_path_def)

text \<open>
  C10. On a node that is not terminal and has been visited before, a call with depth
  budget 0 returns the constant \<open>max_depth_value\<close>, which is 0, and the agent and every
  node of the store are as they were: no action is selected, no child is created and
  nothing is backed up.
\<close>

theorem depth_budget_zero_returns_penalty:
  assumes "get_node ag self = Inr node" "\<not> terminal node" "attrs node = Some st"
    "\<not> is_leaf_node st"
  shows "select_leaf_and_update (Suc frames) ops ag self 0 = Inr (max_depth_value, ag) \<and>
         max_depth_value = 0"
  using assms by (simp add: max_depth_value_def)

theorem depth_budget_zero_returns_penalty_witness:
  "select_leaf_and_update (Suc 0) toy_ops toy_agent2 0 0 = Inr (max_depth_value, toy_agent2) \<and>
   max_depth_value = 0"
  using depth_budget_zero_returns_penalty
    [of toy_agent2 0 "heap toy_agent2 ! 0"
        "the (attrs (heap toy_agent2 ! 0))" 0 toy_ops]
  by (simp add: toy_defs get_node_def)

section \<open>Selection\<close>

text \<open>
  With arrays of the shapes that construction gives them and counts that are not negative,
  the scores that \<open>choose_action\<close> compares are the scores of the specification.
\<close>

lemma choose_action_scores:
  assumes "length pri = action_count" "length (visit_counts st) = action_count"
    "length (mean_action_values st) = action_count" "0 \<le> total_visit_counts st"
    "\<forall>v\<in>set (visit_counts st). 0 \<le> v"
  shows "choose_action st pri = np_argmax (map (score st pri) [0..<action_count])"
proof -
  let ?k = "node_value st * c_puct st * sqrt (real_of_int (total_visit_counts st))"
  let ?xs = "map (\<lambda>p. ?k * p) pri"
  let ?ys = "map (\<lambda>v. real_of_int (1 + v)) (visit_counts st)"
  have nz: "\<forall>y\<in>set ?ys. y \<noteq> 0"
  proof
    fix y assume "y \<in> set ?ys"
    then obtain v where "v \<in> set (visit_counts st)" "y = real_of_int (1 + v)" by auto
    with assms(5) have "0 < 1 + v" by force
    with \<open>y = real_of_int (1 + v)\<close> show "y \<noteq> 0" by simp
  qed
  have len: "length ?xs = length ?ys" using assms by simp
  have ucb: "upper_confidence_bounds st pri
               = Inr (map (\<lambda>i. ?xs ! i / ?ys ! i) [0..<length ?xs])"
    using assms(4) np_divide_same_length [OF len nz]
    by (simp add: upper_confidence_bounds_def np_sqrt_def)
  have "map2 (+) (mean_action_values st) (map (\<lambda>i. ?xs ! i / ?ys ! i) [0..<length ?xs])
          = map (score st pri) [0..<action_count]"
    using assms by (intro nth_equalityI) (simp_all add: score_def)
  with ucb assms show ?thesis
    by (simp add: choose_action_def np_broadcast_def)
qed

text \<open>
  C5. On a node that is not terminal and has been visited before, with a positive depth
  budget, the score of action \<open>a\<close> is
  \<open>mean_action_values[a] + node_value * c_puct * sqrt(total_visit_counts) *
  prior_probabilities[a] / (1 + visit_counts[a])\<close>, the action chosen is the first index at
  which the scores take their maximum, and the simulation goes on through exactly that
  action: its visit is counted, its child is entered and its value is backed up.
\<close>

theorem selection_follows_first_argmax:
  assumes "get_node ag self = Inr node" "\<not> terminal node" "attrs node = Some st"
    "\<not> is_leaf_node st" "d \<noteq> 0" "prior_probabilities node = Some pri"
    "length pri = action_count" "length (visit_counts st) = action_count"
    "length (mean_action_values st) = action_count" "0 \<le> total_visit_counts st"
    "\<forall>v\<in>set (visit_counts st). 0 \<le> v"
  shows "\<exists>a. choose_action st pri = Inr a \<and>
              is_first_argmax (map (score st pri) [0..<action_count]) a \<and>
              select_leaf_and_update (Suc frames) ops ag self d
                = (case child ops (set_attrs ag self (count_visit st a)) self (int a) of
                     Inl e \<Rightarrow> Inl e
                   | Inr (c, ag2) \<Rightarrow>
                       (case select_leaf_and_update frames ops ag2 c (d - 1) of
                          Inl e \<Rightarrow> Inl e
                        | Inr (v, ag3) \<Rightarrow> backup ag3 self a (gamma ag3 * v)))"
proof -
  have ch: "choose_action st pri = np_argmax (map (score st pri) [0..<action_count])"
    by (rule choose_action_scores) (use assms in simp_all)
  have "map (score st pri) [0..<action_count] \<noteq> []"
    by (simp add: action_count_def)
  then obtain a where a: "np_argmax (map (score st pri) [0..<action_count]) = Inr a"
    using np_argmax_nonempty by blast
  have first: "is_first_argmax (map (score st pri) [0..<action_count]) a"
    using a by (rule np_argmax_first)
  then have "a < action_count" by (simp add: is_first_argmax_def)
  with assms ch a first show ?thesis by (intro exI [of _ a]) simp
qed

text \<open>
  In the second simulation of the small system all scores of the root are equal, and the
  action followed is action 0.
\<close>

theorem selection_follows_first_argmax_witness:
  "choose_action
     (toy_attrs False 0 (replicate 12 0) (replicate 12 0) (replicate 12 0) (replicate 12 None))
     toy_priors = Inr 0 \<and>
   select_leaf_and_update (Suc 3) toy_ops toy_agent1 0 3
     = (case child toy_ops
               (set_attrs toy_agent1 0
                  (count_visit
                     (toy_attrs False 0 (replicate 12 0) (replicate 12 0) (replicate 12 0)
                        (replicate 12 None)) 0))
               0 (int 0) of
          Inl e \<Rightarrow> Inl e
        | Inr (c, ag2) \<Rightarrow>
            (case select_leaf_and_update 3 toy_ops ag2 c (3 - 1) of
               Inl e \<Rightarrow> Inl e
             | Inr (v, ag3) \<Rightarrow> backup ag3 0 0 (gamma ag3 * v)))"
proof -
  let ?st = "toy_attrs False 0 (replicate 12 0) (replicate 12 0) (replicate 12 0)
               (replicate 12 None)"
  have 1: "get_node toy_agent1 0 = Inr (heap toy_agent1 ! 0)"
    by (simp add: toy_defs get_node_def)
  have 2: "\<not> terminal (heap toy_agent1 ! 0)" by (simp add: toy_defs)
  have 3: "attrs (heap toy_agent1 ! 0) = Some ?st" by (simp add: toy_defs)
  have 4: "\<not> is_leaf_node ?st" by (simp add: toy_defs)
  have 5: "(3::int) \<noteq> 0" by simp
  have 6: "prior_probabilities (heap toy_agent1 ! 0) = Some toy_priors" by (simp add: toy_defs)
  have 7: "length toy_priors = action_count" by (simp add: toy_defs action_count_def)
  have 8: "length (visit_counts ?st) = action_count" by (simp add: toy_defs action_count_def)
  have 9: "length (mean_action_values ?st) = action_count"
    by (simp add: toy_defs action_count_def)
  have 10: "0 \<le> total_visit_counts ?st" by (simp add: toy_defs)
  have 11: "\<forall>v\<in>set (visit_counts ?st). 0 \<le> v" by (simp add: toy_defs)
  from selection_follows_first_argmax [OF 1 2 3 4 5 6 7 8 9 10 11, of 3 toy_ops]
  obtain a where a: "choose_action ?st toy_priors = Inr a"
    "is_first_argmax (map (score ?st toy_priors) [0..<action_count]) a"
    "select_leaf_and_update (Suc 3) toy_ops toy_agent1 0 3
       = (case child toy_ops (set_attrs toy_agent1 0 (count_visit ?st a)) 0 (int a) of
            Inl e \<Rightarrow> Inl e
          | Inr (c, ag2) \<Rightarrow>
              (case select_leaf_and_update 3 toy_ops ag2 c (3 - 1) of
                 Inl e \<Rightarrow> Inl e
               | Inr (v, ag3) \<Rightarrow> backup ag3 0 a (gamma ag3 * v)))"
    by blast
  have tie: "\<And>i. i < action_count \<Longrightarrow> score ?st toy_priors i = 0"
    by (simp add: score_def toy_defs action_count_def)
  have z: "a = 0"
  proof (rule ccontr)
    assume "a \<noteq> 0"
    then have "0 < a" by simp
    moreover from a(2) have "a < action_count" by (simp add: is_first_argmax_def)
    ultimately have "score ?st toy_priors 0 < score ?st toy_priors a"
      using a(2) by (auto simp: is_first_argmax_def)
    with tie [of 0] tie [of a] \<open>a < action_count\<close> show False by simp
  qed
  show ?thesis by (rule conjI [OF a(1) [unfolded z] a(3) [unfolded z]])
qed

section \<open>Well-formed agents: every simulation returns\<close>

lemma visits_grow_refl: "visits_grow h h"
  by (simp add: visits_grow_def)

lemma visits_grow_trans:
  assumes "visits_grow h h'" "visits_grow h' h''"
  shows "visits_grow h h''"
  unfolding visits_grow_def
proof (intro conjI allI impI)
  show "length h \<le> length h''" using assms by (simp add: visits_grow_def)
next
  fix n assume n: "n < length h"
  then have n': "n < length h'" using assms(1) by (simp add: visits_grow_def)
  show "terminal (h'' ! n) = terminal (h ! n)"
    using assms n n' by (simp add: visits_grow_def)
next
  fix n st assume n: "n < length h" and st: "attrs (h ! n) = Some st"
  then have n': "n < length h'" using assms(1) by (simp add: visits_grow_def)
  from assms(1) n st obtain st' where st': "attrs (h' ! n) = Some st'"
    "length (visit_counts st') = length (visit_counts st)"
    "\<forall>i<length (visit_counts st). visit_counts st ! i \<le> visit_counts st' ! i"
    unfolding visits_grow_def by blast
  from assms(2) n' st'(1) obtain st'' where st'': "attrs (h'' ! n) = Some st''"
    "length (visit_counts st'') = length (visit_counts st')"
    "\<forall>i<length (visit_counts st'). visit_counts st' ! i \<le> visit_counts st'' ! i"
    unfolding visits_grow_def by blast
  have "\<forall>i<length (visit_counts st). visit_counts st ! i \<le> visit_counts st'' ! i"
  proof (intro allI impI)
    fix i assume i: "i < length (visit_counts st)"
    with st'(3) have "visit_counts st ! i \<le> visit_counts st' ! i" by simp
    moreover from i st'(2) st''(3) have "visit_counts st' ! i \<le> visit_counts st'' ! i" by simp
    ultimately show "visit_counts st ! i \<le> visit_counts st'' ! i" by simp
  qed
  with st''(1,2) st'(2)
  show "\<exists>st'. attrs (h'' ! n) = Some st' \<and>
          length (visit_counts st') = length (visit_counts st) \<and>
          (\<forall>i<length (visit_counts st). visit_counts st ! i \<le> visit_counts st' ! i)"
    by simp
qed

lemma visits_grow_update:
  assumes "r < length h" "attrs (h ! r) = Some st"
    "length (visit_counts st') = length (visit_counts st)"
    "\<forall>i<length (visit_counts st). visit_counts st ! i \<le> visit_counts st' ! i"
  shows "visits_grow h (h[r := (h ! r)\<lparr>attrs := Some st'\<rparr>])"
  using assms by (auto simp: visits_grow_def nth_list_update)

lemma visits_grow_append: "visits_grow h (h @ [node])"
  by (simp add: visits_grow_def nth_append)

lemma node_well_formed_mono:
  assumes "node_well_formed m node" "m \<le> m'"
  shows "node_well_formed m' node"
proof (cases "terminal node")
  case True
  with assms(1) show ?thesis by (simp add: node_well_formed_def)
next
  case False
  with assms(1) obtain st pri where st: "attrs node = Some st"
    "prior_probabilities node = Some pri" "length pri = action_count"
    "length (visit_counts st) = action_count" "length (total_action_values st) = action_count"
    "length (mean_action_values st) = action_count" "length (children st) = action_count"
    "0 \<le> total_visit_counts st" "\<forall>i<length (visit_counts st). 0 \<le> visit_counts st ! i"
    and links: "\<forall>i<length (children st). \<forall>r. children st ! i = Some r \<longrightarrow> r < m"
    unfolding node_well_formed_def by auto
  from links assms(2)
  have "\<forall>i<length (children st). \<forall>r. children st ! i = Some r \<longrightarrow> r < m'"
    by (meson less_le_trans)
  with st False show ?thesis unfolding node_well_formed_def by simp
qed

lemma node_well_formed_fresh:
  assumes "length (fst (mpv (State_input_array ops s))) = action_count"
  shows "node_well_formed m (fst (MCTSNode_init ops mpv cp s))"
  using assms by (simp add: MCTSNode_init_def Let_def node_well_formed_def)

lemma well_formed_update:
  assumes "well_formed ag" "r < length (heap ag)"
    "node_well_formed (length (heap ag)) ((heap ag ! r)\<lparr>attrs := Some st'\<rparr>)"
  shows "well_formed (set_attrs ag r st')"
  unfolding well_formed_def
proof (intro conjI allI impI)
  fix x show "length (fst (model_policy_value (set_attrs ag r st') x)) = action_count"
    using assms(1) by (simp add: well_formed_def)
next
  fix n assume "n < length (heap (set_attrs ag r st'))"
  then have n: "n < length (heap ag)" by simp
  show "node_well_formed (length (heap (set_attrs ag r st'))) (heap (set_attrs ag r st') ! n)"
  proof (cases "n = r")
    case True
    with assms(2,3) show ?thesis by (simp add: heap_set_attrs)
  next
    case False
    with n assms(1) show ?thesis by (simp add: heap_set_attrs well_formed_def)
  qed
next
  fix k c assume "transposition_table (set_attrs ag r st') k = Some c"
  with assms(1) show "c < length (heap (set_attrs ag r st'))" by (simp add: well_formed_def)
qed

lemma well_formed_node:
  assumes "well_formed ag" "n < length (heap ag)" "\<not> terminal (heap ag ! n)"
  obtains st pri where "attrs (heap ag ! n) = Some st"
    "prior_probabilities (heap ag ! n) = Some pri" "length pri = action_count"
    "length (visit_counts st) = action_count" "length (total_action_values st) = action_count"
    "length (mean_action_values st) = action_count" "length (children st) = action_count"
    "0 \<le> total_visit_counts st" "\<forall>i<length (visit_counts st). 0 \<le> visit_counts st ! i"
    "\<forall>i<length (children st). \<forall>r. children st ! i = Some r \<longrightarrow> r < length (heap ag)"
proof -
  from assms have "node_well_formed (length (heap ag)) (heap ag ! n)"
    by (simp add: well_formed_def)
  with assms(3) that show thesis unfolding node_well_formed_def by auto
qed

lemma links_bound_update:
  assumes "\<forall>i<length ch. \<forall>r. ch ! i = Some r \<longrightarrow> r < m" "c < (m::nat)"
  shows "\<forall>i<length (ch[j := Some c]). \<forall>r. ch[j := Some c] ! i = Some r \<longrightarrow> r < m"
proof (intro allI impI)
  fix i r assume i: "i < length (ch[j := Some c])" and r: "ch[j := Some c] ! i = Some r"
  show "r < m"
  proof (cases "i = j")
    case True
    with i r have "r = c" by simp
    with assms(2) show ?thesis by simp
  next
    case False
    with r have "ch ! i = Some r" by simp
    with i assms(1) show ?thesis by simp
  qed
qed

lemma node_well_formed_link:
  assumes "node_well_formed m node" "attrs node = Some st" "c < m"
  shows "node_well_formed m (node\<lparr>attrs := Some (st\<lparr>children := (children st)[i := Some c]\<rparr>)\<rparr>)"
proof -
  from assms(1,2) have nt: "\<not> terminal node"
    by (auto simp: node_well_formed_def split: if_splits)
  with assms(1,2) obtain pri where f: "prior_probabilities node = Some pri"
    "length pri = action_count" "length (visit_counts st) = action_count"
    "length (total_action_values st) = action_count"
    "length (mean_action_values st) = action_count" "length (children st) = action_count"
    "0 \<le> total_visit_counts st" "\<forall>i<length (visit_counts st). 0 \<le> visit_counts st ! i"
    and l: "\<forall>j<length (children st). \<forall>r. children st ! j = Some r \<longrightarrow> r < m"
    unfolding node_well_formed_def by auto
  from links_bound_update [OF l assms(3)]
  have "\<forall>j<length ((children st)[i := Some c]).
          \<forall>r. (children st)[i := Some c] ! j = Some r \<longrightarrow> r < m" .
  with f nt show ?thesis
    unfolding node_well_formed_def by simp
qed

lemma node_well_formed_statistics:
  assumes "node_well_formed m node" "attrs node = Some st" "children st' = children st"
    "length (visit_counts st') = length (visit_counts st)"
    "length (total_action_values st') = length (total_action_values st)"
    "length (mean_action_values st') = length (mean_action_values st)"
    "0 \<le> total_visit_counts st'"
    "\<forall>i<length (visit_counts st'). 0 \<le> visit_counts st' ! i"
  shows "node_well_formed m (node\<lparr>attrs := Some st'\<rparr>)"
proof -
  from assms(1,2) have nt: "\<not> terminal node"
    by (auto simp: node_well_formed_def split: if_splits)
  with assms(1,2) obtain pri where f: "prior_probabilities node = Some pri"
    "length pri = action_count" "length (visit_counts st) = action_count"
    "length (total_action_values st) = action_count"
    "length (mean_action_values st) = action_count" "length (children st) = action_count"
    and l: "\<forall>j<length (children st). \<forall>r. children st ! j = Some r \<longrightarrow> r < m"
    unfolding node_well_formed_def by auto
  from f l nt assms(3-8) show ?thesis
    unfolding node_well_formed_def by simp
qed

lemma well_formed_shortest_path:
  "well_formed (ag\<lparr>shortest_path := x\<rparr>) = well_formed ag"
  by (simp add: well_formed_def)

lemma well_formed_total_steps:
  "well_formed (ag\<lparr>total_steps := x\<rparr>) = well_formed ag"
  by (simp add: well_formed_def)

lemma child_succeeds:
  assumes "well_formed ag" "self < length (heap ag)" "\<not> terminal (heap ag ! self)"
    "a < action_count"
  shows "\<exists>c ag'. child ops ag self (int a) = Inr (c, ag')"
proof -
  from assms(1,2,3) obtain st where st: "attrs (heap ag ! self) = Some st"
    "length (children st) = action_count"
    by (rule well_formed_node)
  from assms(4) st(2) have "py_index (length (children st)) (int a) = Some a"
    by (simp add: py_index_in_range)
  with assms(2) st(1) show ?thesis
    by (simp add: child_def get_node_def Let_def split: option.splits)
qed

lemma child_well_formed:
  assumes "child ops ag self action = Inr (c, ag')" "well_formed ag"
  shows "well_formed ag' \<and> c < length (heap ag') \<and> visits_grow (heap ag) (heap ag')"
  using assms(1)
proof (cases rule: child_cases)
  case (linked node st i)
  from linked(1) have self: "self < length (heap ag)" "heap ag ! self = node"
    by (simp_all add: get_node_Inr)
  from linked(3) have i: "i < length (children st)" by (rule py_index_less)
  from assms(2) self have "node_well_formed (length (heap ag)) node"
    by (auto simp: well_formed_def)
  with linked(2,4) i have "c < length (heap ag)"
    by (auto simp: node_well_formed_def split: if_splits)
  with linked(5) assms(2) show ?thesis by (simp add: visits_grow_refl)
next
  case (table node st i)
  let ?st' = "st\<lparr>children := (children st)[i := Some c]\<rparr>"
  from table(1) have self: "self < length (heap ag)" "heap ag ! self = node"
    by (simp_all add: get_node_Inr)
  from assms(2) table(5) have c: "c < length (heap ag)" by (simp add: well_formed_def)
  from assms(2) self have nw: "node_well_formed (length (heap ag)) node"
    by (auto simp: well_formed_def)
  have "node_well_formed (length (heap ag)) (node\<lparr>attrs := Some ?st'\<rparr>)"
    using nw table(2) c by (rule node_well_formed_link)
  with assms(2) self have "well_formed (set_attrs ag self ?st')"
    by (intro well_formed_update) simp_all
  moreover have "visits_grow (heap ag) (heap (set_attrs ag self ?st'))"
    unfolding heap_set_attrs using self table(2)
    by (intro visits_grow_update [where st = st]) simp_all
  ultimately show ?thesis using table(6) c by simp
next
  case (fresh node st i)
  let ?st' = "st\<lparr>children := (children st)[i := Some c]\<rparr>"
  let ?init = "MCTSNode_init ops (model_policy_value ag) (agent_c_puct ag)
                 (State_next ops (state node) action)"
  let ?ag1 = "ag\<lparr>heap := heap ag @ [fst ?init], oracle_calls := oracle_calls ag + snd ?init\<rparr>"
  let ?key = "State_key ops (State_next ops (state node) action)"
  from fresh(1) have self: "self < length (heap ag)" "heap ag ! self = node"
    by (simp_all add: get_node_Inr)
  from assms(2) self have nw: "node_well_formed (length (heap ag)) node"
    by (auto simp: well_formed_def)
  have orc: "\<forall>x. length (fst (model_policy_value ag x)) = action_count"
    using assms(2) by (simp add: well_formed_def)
  have wf1: "well_formed ?ag1"
    unfolding well_formed_def
  proof (intro conjI allI impI)
    fix x show "length (fst (model_policy_value ?ag1 x)) = action_count" using orc by simp
  next
    fix n assume n: "n < length (heap ?ag1)"
    show "node_well_formed (length (heap ?ag1)) (heap ?ag1 ! n)"
    proof (cases "n < length (heap ag)")
      case True
      with assms(2) have "node_well_formed (length (heap ag)) (heap ag ! n)"
        by (simp add: well_formed_def)
      then have "node_well_formed (length (heap ?ag1)) (heap ag ! n)"
        by (rule node_well_formed_mono) simp
      with True show ?thesis by (simp add: nth_append)
    next
      case False
      with n have "n = length (heap ag)" by simp
      moreover have "node_well_formed (length (heap ?ag1)) (fst ?init)"
        using orc by (intro node_well_formed_fresh) simp
      ultimately show ?thesis by simp
    qed
  next
    fix k r assume "transposition_table ?ag1 k = Some r"
    with assms(2) have "r < length (heap ag)" by (simp add: well_formed_def)
    then show "r < length (heap ?ag1)" by simp
  qed
  have self1: "self < length (heap ?ag1)" "heap ?ag1 ! self = node"
    using self by (simp_all add: nth_append)
  have c1: "c < length (heap ?ag1)" using fresh(6) by simp
  from wf1 self1 have nw1: "node_well_formed (length (heap ?ag1)) node"
    by (auto simp: well_formed_def simp del: MCTSAgent.simps)
  have "node_well_formed (length (heap ?ag1)) (node\<lparr>attrs := Some ?st'\<rparr>)"
    using nw1 fresh(2) c1 by (rule node_well_formed_link)
  with wf1 self1 have wf2: "well_formed (set_attrs ?ag1 self ?st')"
    by (intro well_formed_update) simp_all
  have wf3: "well_formed ((set_attrs ?ag1 self ?st')\<lparr>transposition_table := (transposition_table ag)(?key \<mapsto> c)\<rparr>)"
    using wf2 c1 by (auto simp: well_formed_def)
  have "visits_grow (heap ag) (heap ?ag1)" by (simp add: visits_grow_append)
  moreover have "visits_grow (heap ?ag1) (heap (set_attrs ?ag1 self ?st'))"
    unfolding heap_set_attrs using self1 fresh(2)
    by (intro visits_grow_update [where st = st]) simp_all
  ultimately have "visits_grow (heap ag) (heap (set_attrs ?ag1 self ?st'))"
    by (rule visits_grow_trans)
  with wf3 fresh(7) c1 show ?thesis by simp
qed

lemma choose_action_succeeds:
  assumes "length pri = action_count" "length (visit_counts st) = action_count"
    "length (mean_action_values st) = action_count" "0 \<le> total_visit_counts st"
    "\<forall>i<length (visit_counts st). 0 \<le> visit_counts st ! i"
  shows "\<exists>a<action_count. choose_action st pri = Inr a"
proof -
  have nn: "\<forall>v\<in>set (visit_counts st). 0 \<le> v"
    using assms(5) by (auto simp: in_set_conv_nth)
  have ch: "choose_action st pri = np_argmax (map (score st pri) [0..<action_count])"
    using assms(1-4) nn by (rule choose_action_scores)
  have "map (score st pri) [0..<action_count] \<noteq> []" by (simp add: action_count_def)
  then obtain a where a: "np_argmax (map (score st pri) [0..<action_count]) = Inr a"
    using np_argmax_nonempty by blast
  then have "is_first_argmax (map (score st pri) [0..<action_count]) a"
    by (rule np_argmax_first)
  then have "a < action_count" by (simp add: is_first_argmax_def)
  with ch a show ?thesis by auto
qed

text \<open>
  On a well-formed agent, a call of \<open>select_leaf_and_update\<close> with a depth budget that is
  not negative and with more stack frames than the budget returns: no index is out of
  range, nothing is divided by zero (the visit counted before the recursive call keeps the
  count positive until the backup) and the frames do not run out. The agent is well
  formed afterwards.
\<close>

lemma select_total:
  assumes "well_formed ag" "self < length (heap ag)" "0 \<le> d" "d < int frames"
  shows "\<exists>v ag'. select_leaf_and_update frames ops ag self d = Inr (v, ag') \<and>
           well_formed ag' \<and> visits_grow (heap ag) (heap ag')"
  using assms
proof (induction frames arbitrary: ag self d)
  case 0
  then show ?case by simp
next
  case (Suc frames)
  let ?node = "heap ag ! self"
  have gn: "get_node ag self = Inr ?node" using Suc.prems(2) by (simp add: get_node_def)
  show ?case
  proof (cases "terminal ?node")
    case True
    with gn Suc.prems(1) show ?thesis
      by (simp add: Let_def well_formed_shortest_path visits_grow_refl)
  next
    case nt: False
    from Suc.prems(1,2) nt obtain st pri where st: "attrs ?node = Some st"
      "prior_probabilities ?node = Some pri" "length pri = action_count"
      "length (visit_counts st) = action_count" "length (total_action_values st) = action_count"
      "length (mean_action_values st) = action_count" "length (children st) = action_count"
      "0 \<le> total_visit_counts st" "\<forall>i<length (visit_counts st). 0 \<le> visit_counts st ! i"
      by (rule well_formed_node)
    have nw: "node_well_formed (length (heap ag)) ?node"
      using Suc.prems(1,2) by (simp add: well_formed_def)
    show ?thesis
    proof (cases "is_leaf_node st")
      case True
      let ?st' = "st\<lparr>is_leaf_node := False\<rparr>"
      have "node_well_formed (length (heap ag)) (?node\<lparr>attrs := Some ?st'\<rparr>)"
        using nw st(1) by (rule node_well_formed_statistics) (use st in simp_all)
      with Suc.prems(1,2) have "well_formed (set_attrs ag self ?st')"
        by (intro well_formed_update)
      moreover have "visits_grow (heap ag) (heap (set_attrs ag self ?st'))"
        unfolding heap_set_attrs using Suc.prems(2) st(1)
        by (intro visits_grow_update [where st = st]) simp_all
      ultimately show ?thesis using gn nt st(1) True by simp
    next
      case leaf: False
      show ?thesis
      proof (cases "d = 0")
        case True
        with gn nt st(1) leaf Suc.prems(1) show ?thesis by (simp add: visits_grow_refl)
      next
        case dn: False
        from choose_action_succeeds [OF st(3,4,6,8,9)]
        obtain a where a: "a < action_count" "choose_action st pri = Inr a" by blast
        let ?st1 = "count_visit st a"
        let ?ag1 = "set_attrs ag self ?st1"
        have a_len: "a < length (visit_counts st)" using a(1) st(4) by simp
        have cv: "length (visit_counts ?st1) = length (visit_counts st)"
          "visit_counts ?st1 ! a = visit_counts st ! a + 1"
          "\<forall>i<length (visit_counts st). visit_counts st ! i \<le> visit_counts ?st1 ! i"
          using a_len by (auto simp: count_visit_def nth_list_update)
        have nn1: "\<forall>i<length (visit_counts ?st1). 0 \<le> visit_counts ?st1 ! i"
        proof (intro allI impI)
          fix i assume "i < length (visit_counts ?st1)"
          with cv(1) have i: "i < length (visit_counts st)" by simp
          with st(9) have "0 \<le> visit_counts st ! i" by simp
          moreover from cv(3) i have "visit_counts st ! i \<le> visit_counts ?st1 ! i" by simp
          ultimately show "0 \<le> visit_counts ?st1 ! i" by simp
        qed
        have "node_well_formed (length (heap ag)) (?node\<lparr>attrs := Some ?st1\<rparr>)"
          using nw st(1)
        proof (rule node_well_formed_statistics)
          show "0 \<le> total_visit_counts ?st1" using st(8) by (simp add: count_visit_def)
          show "\<forall>i<length (visit_counts ?st1). 0 \<le> visit_counts ?st1 ! i" by (rule nn1)
        qed (simp_all add: count_visit_def)
        with Suc.prems(1,2) have wf1: "well_formed ?ag1" by (intro well_formed_update)
        have g1: "visits_grow (heap ag) (heap ?ag1)"
          unfolding heap_set_attrs using Suc.prems(2) st(1) cv(1,3)
          by (intro visits_grow_update [where st = st]) simp_all
        have self1: "self < length (heap ?ag1)" "\<not> terminal (heap ?ag1 ! self)"
          "attrs (heap ?ag1 ! self) = Some ?st1"
          using Suc.prems(2) nt by (simp_all add: heap_set_attrs)
        from child_succeeds [OF wf1 self1(1,2) a(1)]
        obtain c ag2 where c: "child ops ?ag1 self (int a) = Inr (c, ag2)" by blast
        from child_well_formed [OF c wf1]
        have wf2: "well_formed ag2" and c2: "c < length (heap ag2)"
          and g2: "visits_grow (heap ?ag1) (heap ag2)" by simp_all
        have "\<exists>v ag'. select_leaf_and_update frames ops ag2 c (d - 1) = Inr (v, ag') \<and>
                well_formed ag' \<and> visits_grow (heap ag2) (heap ag')"
          using wf2 c2 by (rule Suc.IH) (use Suc.prems(3,4) dn in simp_all)
        then obtain w ag3 where
          r: "select_leaf_and_update frames ops ag2 c (d - 1) = Inr (w, ag3)"
          and wf3: "well_formed ag3" and g3: "visits_grow (heap ag2) (heap ag3)" by blast
        have g13: "visits_grow (heap ?ag1) (heap ag3)"
          using g2 g3 by (rule visits_grow_trans)
        from g13 self1 obtain st3 where st3: "attrs (heap ag3 ! self) = Some st3"
          "length (visit_counts st3) = length (visit_counts ?st1)"
          "\<forall>i<length (visit_counts ?st1). visit_counts ?st1 ! i \<le> visit_counts st3 ! i"
          and self3: "self < length (heap ag3)" "\<not> terminal (heap ag3 ! self)"
          unfolding visits_grow_def by force
        from wf3 self3 obtain st3' where st3': "attrs (heap ag3 ! self) = Some st3'"
          "length (visit_counts st3') = action_count"
          "length (total_action_values st3') = action_count"
          "length (mean_action_values st3') = action_count"
          "0 \<le> total_visit_counts st3'"
          "\<forall>i<length (visit_counts st3'). 0 \<le> visit_counts st3' ! i"
          by (rule well_formed_node)
        with st3(1) have eq: "st3' = st3" by simp
        have "visit_counts ?st1 ! a \<le> visit_counts st3 ! a"
          using st3(3) cv(1) a_len by simp
        moreover have "0 \<le> visit_counts st ! a" using st(9) a_len by simp
        ultimately have pos: "visit_counts st3 ! a \<noteq> 0" using cv(2) by simp
        let ?x = "gamma ag3 * w"
        let ?st4 = "st3\<lparr>total_action_values :=
                        (total_action_values st3)[a := total_action_values st3 ! a + ?x],
                      mean_action_values :=
                        (mean_action_values st3)
                          [a := (total_action_values st3 ! a + ?x)
                                / real_of_int (visit_counts st3 ! a)]\<rparr>"
        have b: "backup ag3 self a ?x = Inr (?x, set_attrs ag3 self ?st4)"
          using self3 st3(1) st3'(2,3,4) eq a(1) pos
          by (simp add: backup_def get_node_def Let_def)
        have nw3: "node_well_formed (length (heap ag3)) (heap ag3 ! self)"
          using wf3 self3(1) by (simp add: well_formed_def)
        have "node_well_formed (length (heap ag3)) ((heap ag3 ! self)\<lparr>attrs := Some ?st4\<rparr>)"
          using nw3 st3(1)
          by (rule node_well_formed_statistics) (use st3' eq in simp_all)
        with wf3 self3(1) have wf4: "well_formed (set_attrs ag3 self ?st4)"
          by (intro well_formed_update)
        have "visits_grow (heap ag3) (heap (set_attrs ag3 self ?st4))"
          unfolding heap_set_attrs using self3(1) st3(1)
          by (intro visits_grow_update [where st = st3]) simp_all
        with g13 have "visits_grow (heap ?ag1) (heap (set_attrs ag3 self ?st4))"
          by (rule visits_grow_trans)
        with g1 have g: "visits_grow (heap ag) (heap (set_attrs ag3 self ?st4))"
          by (rule visits_grow_trans)
        have "select_leaf_and_update (Suc frames) ops ag self d
                = Inr (?x, set_attrs ag3 self ?st4)"
          using gn nt st(1,2) leaf dn a(2) a_len c r b by simp
        with wf4 g show ?thesis by blast
      qed
    qed
  qed
qed

lemma search_loop_total:
  assumes "well_formed ag" "initial_node ag < length (heap ag)" "0 \<le> max_depth ag"
    "max_depth ag < int frames"
  shows "\<exists>ag'. search_loop frames ops ag n = Inr ag' \<and> well_formed ag' \<and>
           initial_node ag' = initial_node ag \<and> max_depth ag' = max_depth ag \<and>
           visits_grow (heap ag) (heap ag')"
  using assms
proof (induction n arbitrary: ag)
  case 0
  then show ?case by (simp add: visits_grow_refl)
next
  case (Suc n)
  from select_total [OF Suc.prems(1,2,3,4)]
  obtain v ag1 where
    s: "select_leaf_and_update frames ops ag (initial_node ag) (max_depth ag) = Inr (v, ag1)"
    and wf1: "well_formed ag1" and g1: "visits_grow (heap ag) (heap ag1)" by blast
  let ?ag2 = "ag1\<lparr>total_steps := total_steps ag1 + 1\<rparr>"
  note fr = select_frame [OF s]
  have "\<exists>ag'. search_loop frames ops ?ag2 n = Inr ag' \<and> well_formed ag' \<and>
           initial_node ag' = initial_node ?ag2 \<and> max_depth ag' = max_depth ?ag2 \<and>
           visits_grow (heap ?ag2) (heap ag')"
  proof (rule Suc.IH)
    show "well_formed ?ag2" using wf1 by (simp add: well_formed_total_steps)
    show "initial_node ?ag2 < length (heap ?ag2)" using fr Suc.prems(2) by simp
    show "0 \<le> max_depth ?ag2" using fr Suc.prems(3) by simp
    show "max_depth ?ag2 < int frames" using fr Suc.prems(4) by simp
  qed
  then obtain ag' where r: "search_loop frames ops ?ag2 n = Inr ag'" "well_formed ag'"
    "initial_node ag' = initial_node ?ag2" "max_depth ag' = max_depth ?ag2"
    "visits_grow (heap ?ag2) (heap ag')" by blast
  have "visits_grow (heap ag1) (heap ag')" using r(5) by simp
  with g1 have g: "visits_grow (heap ag) (heap ag')" by (rule visits_grow_trans)
  have e: "search_loop frames ops ag (Suc n) = Inr ag'" using s r(1) by simp
  have i: "initial_node ag' = initial_node ag" using r(3) fr by simp
  have m: "max_depth ag' = max_depth ag" using r(4) fr by simp
  from e r(2) i m g show ?case by blast
qed

text \<open>
  A newly constructed agent is well formed, and so is an agent that has advanced.
\<close>

lemma init_well_formed:
  assumes "''rotationally_randomize'' \<in> set names"
    "\<forall>x. length (fst (rr mpv x)) = action_count" "length noise = action_count"
    "\<forall>n<length objs. node_well_formed (length objs) (objs ! n)"
    "\<forall>k r. table k = Some r \<longrightarrow> r < length objs"
  shows "\<exists>ag. MCTSAgent_init names rr ops mpv s maxd table objs cp g noise = Inr ag \<and>
           well_formed ag \<and> initial_node ag < length (heap ag) \<and> max_depth ag = maxd"
proof -
  let ?raw = "fst (rr mpv (State_input_array ops s))"
  let ?pri = "map2 (\<lambda>p x. 0.75 * p + 0.25 * x) ?raw noise"
  let ?new = "fst (MCTSNode_init ops (rr mpv) cp s)"
  let ?root = "?new\<lparr>prior_probabilities := Some ?pri\<rparr>"
  let ?ag = "\<lparr>model_policy_value = rr mpv, max_depth = maxd, total_steps = 0,
              transposition_table = table, agent_c_puct = cp, gamma = g,
              initial_node = length objs, shortest_path = maxd + 1,
              heap = objs @ [?root],
              oracle_calls = snd (MCTSNode_init ops (rr mpv) cp s) + 1\<rparr>"
  have st: "state ?new = s" by (simp add: MCTSNode_init_def Let_def)
  have "length noise = length ?raw" using assms(2,3) by simp
  then have "root_noise ?raw noise = Inr ?pri" by (rule root_noise_same_length)
  with assms(1) st have init: "MCTSAgent_init names rr ops mpv s maxd table objs cp g noise = Inr ?ag"
    by (simp add: MCTSAgent_init_def Let_def)
  have root: "node_well_formed (Suc (length objs)) ?root"
    using assms(2,3)
    by (simp add: MCTSNode_init_def Let_def node_well_formed_def)
  have "well_formed ?ag"
    unfolding well_formed_def
  proof (intro conjI allI impI)
    fix x show "length (fst (model_policy_value ?ag x)) = action_count" using assms(2) by simp
  next
    fix n assume n: "n < length (heap ?ag)"
    show "node_well_formed (length (heap ?ag)) (heap ?ag ! n)"
    proof (cases "n < length objs")
      case True
      with assms(4) have "node_well_formed (length objs) (objs ! n)" by simp
      then have "node_well_formed (Suc (length objs)) (objs ! n)"
        by (rule node_well_formed_mono) simp
      with True show ?thesis by (simp add: nth_append)
    next
      case False
      with n have "n = length objs" by simp
      with root show ?thesis by simp
    qed
  next
    fix k r assume "transposition_table ?ag k = Some r"
    with assms(5) have "r < length objs" by simp
    then show "r < length (heap ?ag)" by simp
  qed
  with init show ?thesis by simp
qed

lemma advance_total:
  assumes "well_formed ag" "initial_node ag < length (heap ag)"
    "\<not> terminal (heap ag ! initial_node ag)" "a < action_count" "length noise = action_count"
  shows "\<exists>ag'. advance_to_action ops ag (int a) noise = Inr ag' \<and> well_formed ag' \<and>
           initial_node ag' < length (heap ag')"
proof -
  from child_succeeds [OF assms(1,2,3,4)]
  obtain c ag1 where c: "child ops ag (initial_node ag) (int a) = Inr (c, ag1)" by blast
  from child_well_formed [OF c assms(1)]
  have wf1: "well_formed ag1" and c1: "c < length (heap ag1)" by simp_all
  let ?node = "heap ag1 ! c"
  let ?raw = "fst (model_policy_value ag1 (State_input_array ops (state ?node)))"
  let ?pri = "map2 (\<lambda>p x. 0.75 * p + 0.25 * x) ?raw noise"
  define ag' where
    "ag' = ag1\<lparr>initial_node := c,
               heap := (heap ag1)[c := ?node\<lparr>prior_probabilities := Some ?pri\<rparr>],
               oracle_calls := oracle_calls ag1 + 1, shortest_path := max_depth ag1 + 1\<rparr>"
  have fields: "model_policy_value ag' = model_policy_value ag1"
    "transposition_table ag' = transposition_table ag1" "initial_node ag' = c"
    "heap ag' = (heap ag1)[c := ?node\<lparr>prior_probabilities := Some ?pri\<rparr>]"
    by (simp_all add: ag'_def)
  have raw: "length ?raw = action_count" using wf1 by (simp add: well_formed_def)
  with assms(5) have "root_noise ?raw noise = Inr ?pri"
    by (intro root_noise_same_length) simp
  with c c1 have adv: "advance_to_action ops ag (int a) noise = Inr ag'"
    by (simp add: advance_to_action_def get_node_def ag'_def)
  have nw: "node_well_formed (length (heap ag1)) ?node"
    using wf1 c1 by (simp add: well_formed_def)
  have len: "length ?pri = action_count" using raw assms(5) by simp
  have nw': "node_well_formed (length (heap ag1)) (?node\<lparr>prior_probabilities := Some ?pri\<rparr>)"
    using nw len unfolding node_well_formed_def by (auto split: if_splits)
  have "well_formed ag'"
    unfolding well_formed_def fields
  proof (intro conjI allI impI)
    fix x show "length (fst (model_policy_value ag1 x)) = action_count"
      using wf1 by (simp add: well_formed_def)
  next
    fix n
    assume "n < length ((heap ag1)[c := ?node\<lparr>prior_probabilities := Some ?pri\<rparr>])"
    then have n: "n < length (heap ag1)" by simp
    show "node_well_formed (length ((heap ag1)[c := ?node\<lparr>prior_probabilities := Some ?pri\<rparr>]))
            ((heap ag1)[c := ?node\<lparr>prior_probabilities := Some ?pri\<rparr>] ! n)"
    proof (cases "n = c")
      case True
      with c1 nw' show ?thesis by simp
    next
      case False
      with n wf1 show ?thesis by (simp add: well_formed_def)
    qed
  next
    fix k r
    assume "transposition_table ag1 k = Some r"
    with wf1 have "r < length (heap ag1)" by (simp add: well_formed_def)
    then show "r < length ((heap ag1)[c := ?node\<lparr>prior_probabilities := Some ?pri\<rparr>])"
      by simp
  qed
  with adv c1 fields show ?thesis by simp
qed

section \<open>Backup\<close>

text \<open>
  One recursive step, when it returns: the value from the child, the discount, the two
  updates and the value handed back.
\<close>

lemma backup_step:
  assumes "get_node ag self = Inr node" "\<not> terminal node" "attrs node = Some st"
    "\<not> is_leaf_node st" "d \<noteq> 0"
    "select_leaf_and_update (Suc frames) ops ag self d = Inr (r, ag')"
  shows "\<exists>pri a c ag2 v ag3 st3 st'.
           prior_probabilities node = Some pri \<and> choose_action st pri = Inr a \<and>
           child ops (set_attrs ag self (count_visit st a)) self (int a) = Inr (c, ag2) \<and>
           select_leaf_and_update frames ops ag2 c (d - 1) = Inr (v, ag3) \<and>
           r = gamma ag * v \<and>
           attrs (heap ag3 ! self) = Some st3 \<and> attrs (heap ag' ! self) = Some st' \<and>
           total_action_values st' ! a = total_action_values st3 ! a + gamma ag * v \<and>
           mean_action_values st' ! a
             = total_action_values st' ! a / real_of_int (visit_counts st' ! a)"
  using assms(6)
proof (cases rule: select_cases)
  case (terminal node')
  with assms show ?thesis by simp
next
  case (leaf node' st')
  with assms show ?thesis by simp
next
  case (depth0 node' st')
  with assms show ?thesis by simp
next
  case (step node' st0 pri a c ag2 w ag3)
  from step(1,3) assms(1,3) have st0: "st0 = st" "node' = node" by simp_all
  have g: "gamma ag3 = gamma ag"
    using child_frame [OF step(9)] select_frame [OF step(10)] by simp
  from step(11) show ?thesis
  proof (cases rule: backup_cases)
    case (1 node3 st3)
    let ?st' = "st3\<lparr>total_action_values :=
                     (total_action_values st3)[a := total_action_values st3 ! a + gamma ag3 * w],
                   mean_action_values :=
                     (mean_action_values st3)
                       [a := (total_action_values st3 ! a + gamma ag3 * w)
                             / real_of_int (visit_counts st3 ! a)]\<rparr>"
    from 1(1) have self: "self < length (heap ag3)" "heap ag3 ! self = node3"
      by (auto simp: get_node_def split: if_splits)
    have "attrs (heap ag' ! self) = Some ?st'"
      using 1(8) self by (simp add: set_attrs_def)
    moreover have "total_action_values ?st' ! a = total_action_values st3 ! a + gamma ag * w"
      using 1(3) g by simp
    moreover have "mean_action_values ?st' ! a
        = total_action_values ?st' ! a / real_of_int (visit_counts ?st' ! a)"
      using 1(3,5) by simp
    moreover have "attrs (heap ag3 ! self) = Some st3" using self 1(2) by simp
    moreover have "r = gamma ag * w" using 1(7) g by simp
    ultimately show ?thesis
      using step(6,7,9,10) st0 by blast
  qed
qed

text \<open>
  C4, as the source has it. In the recursive step of a node that is not terminal and has
  been visited before, with a depth budget that is not 0, the value \<open>v\<close> returned by the
  call on the child of the chosen action is multiplied by \<open>gamma\<close>; the product is added to
  \<open>total_action_values[action]\<close>, \<open>mean_action_values[action]\<close> is recomputed as the total
  divided by the visit count, and the value returned to the caller is that same product
  \<open>gamma * v\<close>, so the discount compounds along the path. On a well-formed agent, with enough
  stack frames, the call does return.
\<close>

theorem backup_returns_discounted_value:
  assumes "get_node ag self = Inr node" "\<not> terminal node" "attrs node = Some st"
    "\<not> is_leaf_node st" "d \<noteq> 0"
  shows "(\<forall>r ag'. select_leaf_and_update (Suc frames) ops ag self d = Inr (r, ag') \<longrightarrow>
            (\<exists>pri a c ag2 v ag3 st3 st'.
               prior_probabilities node = Some pri \<and> choose_action st pri = Inr a \<and>
               child ops (set_attrs ag self (count_visit st a)) self (int a) = Inr (c, ag2) \<and>
               select_leaf_and_update frames ops ag2 c (d - 1) = Inr (v, ag3) \<and>
               r = gamma ag * v \<and>
               attrs (heap ag3 ! self) = Some st3 \<and> attrs (heap ag' ! self) = Some st' \<and>
               total_action_values st' ! a = total_action_values st3 ! a + gamma ag * v \<and>
               mean_action_values st' ! a
                 = total_action_values st' ! a / real_of_int (visit_counts st' ! a))) \<and>
         (well_formed ag \<longrightarrow> 0 \<le> d \<longrightarrow> d < int (Suc frames) \<longrightarrow>
            (\<exists>r ag'. select_leaf_and_update (Suc frames) ops ag self d = Inr (r, ag')))"
proof (intro conjI allI impI)
  fix r ag'
  assume "select_leaf_and_update (Suc frames) ops ag self d = Inr (r, ag')"
  with assms
  show "\<exists>pri a c ag2 v ag3 st3 st'.
          prior_probabilities node = Some pri \<and> choose_action st pri = Inr a \<and>
          child ops (set_attrs ag self (count_visit st a)) self (int a) = Inr (c, ag2) \<and>
          select_leaf_and_update frames ops ag2 c (d - 1) = Inr (v, ag3) \<and>
          r = gamma ag * v \<and>
          attrs (heap ag3 ! self) = Some st3 \<and> attrs (heap ag' ! self) = Some st' \<and>
          total_action_values st' ! a = total_action_values st3 ! a + gamma ag * v \<and>
          mean_action_values st' ! a
            = total_action_values st' ! a / real_of_int (visit_counts st' ! a)"
    by (rule backup_step)
next
  assume "well_formed ag" "0 \<le> d" "d < int (Suc frames)"
  moreover from assms(1) have "self < length (heap ag)" by (simp add: get_node_Inr)
  ultimately
  have "\<exists>v ag'. select_leaf_and_update (Suc frames) ops ag self d = Inr (v, ag') \<and>
          well_formed ag' \<and> visits_grow (heap ag) (heap ag')"
    by (intro select_total)
  then show "\<exists>r ag'. select_leaf_and_update (Suc frames) ops ag self d = Inr (r, ag')"
    by blast
qed

theorem backup_returns_discounted_value_witness:
  "(\<exists>pri a c ag2 v ag3 st3 st'.
      prior_probabilities (heap toy_agent1 ! 0) = Some pri \<and>
      choose_action
        (toy_attrs False 0 (replicate 12 0) (replicate 12 0) (replicate 12 0)
           (replicate 12 None)) pri = Inr a \<and>
      child toy_ops
        (set_attrs toy_agent1 0
           (count_visit
              (toy_attrs False 0 (replicate 12 0) (replicate 12 0) (replicate 12 0)
                 (replicate 12 None)) a)) 0 (int a)
        = Inr (c, ag2) \<and>
      select_leaf_and_update 3 toy_ops ag2 c (3 - 1) = Inr (v, ag3) \<and>
      (1 / 4 :: real) = gamma toy_agent1 * v \<and>
      attrs (heap ag3 ! 0) = Some st3 \<and>
      attrs (heap (toy_agent2\<lparr>total_steps := 1\<rparr>) ! 0) = Some st' \<and>
      total_action_values st' ! a = total_action_values st3 ! a + gamma toy_agent1 * v \<and>
      mean_action_values st' ! a
        = total_action_values st' ! a / real_of_int (visit_counts st' ! a)) \<and>
   (\<exists>r ag'. select_leaf_and_update (Suc 3) toy_ops toy_agent1 0 3 = Inr (r, ag'))"
proof -
  have 1: "get_node toy_agent1 0 = Inr (heap toy_agent1 ! 0)"
    by (simp add: toy_defs get_node_def)
  have 2: "\<not> terminal (heap toy_agent1 ! 0)"
    by (simp add: toy_defs)
  have 3: "attrs (heap toy_agent1 ! 0)
             = Some (toy_attrs False 0 (replicate 12 0) (replicate 12 0) (replicate 12 0)
                       (replicate 12 None))"
    by (simp add: toy_defs)
  have 4: "\<not> is_leaf_node (toy_attrs False 0 (replicate 12 0) (replicate 12 0) (replicate 12 0)
                       (replicate 12 None))"
    by (simp add: toy_defs)
  have 5: "(3::int) \<noteq> 0" by simp
  have 6: "select_leaf_and_update (Suc 3) toy_ops toy_agent1 0 3
             = Inr (1 / 4, toy_agent2\<lparr>total_steps := 1\<rparr>)"
    using toy_simulation2 by simp
  note th = backup_returns_discounted_value [OF 1 2 3 4 5, of 3 toy_ops]
  from th 6 have a: "\<exists>pri a c ag2 v ag3 st3 st'.
      prior_probabilities (heap toy_agent1 ! 0) = Some pri \<and>
      choose_action
        (toy_attrs False 0 (replicate 12 0) (replicate 12 0) (replicate 12 0)
           (replicate 12 None)) pri = Inr a \<and>
      child toy_ops
        (set_attrs toy_agent1 0
           (count_visit
              (toy_attrs False 0 (replicate 12 0) (replicate 12 0) (replicate 12 0)
                 (replicate 12 None)) a)) 0 (int a)
        = Inr (c, ag2) \<and>
      select_leaf_and_update 3 toy_ops ag2 c (3 - 1) = Inr (v, ag3) \<and>
      (1 / 4 :: real) = gamma toy_agent1 * v \<and>
      attrs (heap ag3 ! 0) = Some st3 \<and>
      attrs (heap (toy_agent2\<lparr>total_steps := 1\<rparr>) ! 0) = Some st' \<and>
      total_action_values st' ! a = total_action_values st3 ! a + gamma toy_agent1 * v \<and>
      mean_action_values st' ! a
        = total_action_values st' ! a / real_of_int (visit_counts st' ! a)"
    by blast
  from th toy_agent1_well_formed
  have b: "\<exists>r ag'. select_leaf_and_update (Suc 3) toy_ops toy_agent1 0 3 = Inr (r, ag')"
    by simp
  from a b show ?thesis by (rule conjI)
qed

text \<open>
  The claim as the specification words it (the caller receives the child's value before
  the multiplication) fails in the second simulation of the small system: the child's call
  returns 1/2 and the root returns 1/4.
\<close>

theorem undiscounted_return_counterexample:
  "child toy_ops
     (set_attrs toy_agent1 0
        (count_visit
           (toy_attrs False 0 (replicate 12 0) (replicate 12 0) (replicate 12 0)
              (replicate 12 None)) 0)) 0 0
     = Inr (1, toy_agent1_linked) \<and>
   returned_value (select_leaf_and_update 3 toy_ops toy_agent1_linked 1 2) = Some (1 / 2) \<and>
   returned_value (select_leaf_and_update 4 toy_ops toy_agent1 0 3) = Some (1 / 4)"
  by (simp add: toy_defs model_defs returned_value_def numeral_eq_Suc)

section \<open>The invariant of the statistics\<close>

lemma sum_list_increment:
  fixes xs :: "int list"
  shows "a < length xs \<Longrightarrow> sum_list (xs[a := xs ! a + 1]) = sum_list xs + 1"
proof (induction xs arbitrary: a)
  case Nil
  then show ?case by simp
next
  case (Cons x xs)
  then show ?case by (cases a) simp_all
qed

lemma statistics_consistent_mono:
  assumes "statistics_consistent P h" "P \<subseteq> Q"
  shows "statistics_consistent Q h"
  using assms unfolding statistics_consistent_def attrs_consistent_def by blast

lemma statistics_consistent_update:
  assumes "statistics_consistent P (heap ag)" "attrs_consistent P r st"
  shows "statistics_consistent P (heap (set_attrs ag r st))"
  unfolding statistics_consistent_def
proof (intro allI impI)
  fix n st'
  assume n: "n < length (heap (set_attrs ag r st))"
    and a: "attrs (heap (set_attrs ag r st) ! n) = Some st'"
  show "attrs_consistent P n st'"
  proof (cases "n = r")
    case True
    with n a assms(2) show ?thesis by (simp add: heap_set_attrs)
  next
    case False
    with n a assms(1) show ?thesis
      by (simp add: heap_set_attrs statistics_consistent_def)
  qed
qed

lemma attrs_consistent_children:
  "attrs_consistent P n (st\<lparr>children := ch\<rparr>) = attrs_consistent P n st"
  by (simp add: attrs_consistent_def)

lemma attrs_consistent_leaf:
  "attrs_consistent P n (st\<lparr>is_leaf_node := b\<rparr>) = attrs_consistent P n st"
  by (simp add: attrs_consistent_def)

lemma attrs_consistent_fresh:
  assumes "attrs (fst (MCTSNode_init ops mpv cp s)) = Some st"
  shows "attrs_consistent P n st"
  using assms
  by (auto simp: MCTSNode_init_def Let_def attrs_consistent_def sum_list_replicate split: if_splits)

lemma statistics_consistent_append:
  assumes "statistics_consistent P h" "\<And>st. attrs node = Some st \<Longrightarrow> attrs_consistent P (length h) st"
  shows "statistics_consistent P (h @ [node])"
  unfolding statistics_consistent_def
proof (intro allI impI)
  fix n st
  assume n: "n < length (h @ [node])" and a: "attrs ((h @ [node]) ! n) = Some st"
  show "attrs_consistent P n st"
  proof (cases "n < length h")
    case True
    with a assms(1) show ?thesis by (simp add: nth_append statistics_consistent_def)
  next
    case False
    with n have "n = length h" by simp
    with a assms(2) show ?thesis by simp
  qed
qed

lemma child_statistics_consistent:
  assumes "child ops ag self action = Inr (c, ag')" "statistics_consistent P (heap ag)"
  shows "statistics_consistent P (heap ag')"
  using assms(1)
proof (cases rule: child_cases)
  case (linked node st i)
  with assms(2) show ?thesis by simp
next
  case (table node st i)
  from table(1,2) assms(2) have "attrs_consistent P self st"
    by (auto simp: get_node_Inr statistics_consistent_def)
  then have "attrs_consistent P self (st\<lparr>children := (children st)[i := Some c]\<rparr>)"
    by (simp add: attrs_consistent_children)
  with assms(2) table(6) show ?thesis by (simp add: statistics_consistent_update)
next
  case (fresh node st i)
  let ?new = "fst (MCTSNode_init ops (model_policy_value ag) (agent_c_puct ag)
                     (State_next ops (state node) action))"
  let ?ag1 = "ag\<lparr>heap := heap ag @ [?new],
                  oracle_calls := oracle_calls ag +
                    snd (MCTSNode_init ops (model_policy_value ag) (agent_c_puct ag)
                           (State_next ops (state node) action))\<rparr>"
  from fresh(1,2) assms(2) have "attrs_consistent P self st"
    by (auto simp: get_node_Inr statistics_consistent_def)
  then have st: "attrs_consistent P self (st\<lparr>children := (children st)[i := Some c]\<rparr>)"
    by (simp add: attrs_consistent_children)
  have "statistics_consistent P (heap ag @ [?new])"
    using assms(2) by (rule statistics_consistent_append) (rule attrs_consistent_fresh)
  then have "statistics_consistent P (heap ?ag1)" by simp
  from statistics_consistent_update [OF this st] fresh(7) show ?thesis by simp
qed

lemma count_visit_consistent:
  assumes "attrs_consistent P n st" "a < length (visit_counts st)"
  shows "attrs_consistent (insert (n, a) P) n (count_visit st a)"
  using assms
  by (auto simp: attrs_consistent_def count_visit_def sum_list_increment nth_list_update)

lemma backup_statistics_consistent:
  assumes "backup ag self a x = Inr (v, ag')"
    "statistics_consistent (insert (self, a) P) (heap ag)"
  shows "statistics_consistent P (heap ag')"
  using assms(1)
proof (cases rule: backup_cases)
  case (1 node st)
  let ?st' = "st\<lparr>total_action_values := (total_action_values st)[a := total_action_values st ! a + x],
                 mean_action_values :=
                   (mean_action_values st)
                     [a := (total_action_values st ! a + x) / real_of_int (visit_counts st ! a)]\<rparr>"
  from 1(1,2) assms(2) have old: "attrs_consistent (insert (self, a) P) self st"
    by (auto simp: get_node_Inr statistics_consistent_def)
  have new: "attrs_consistent P self ?st'"
    using old 1(3,4,5)
    by (auto simp: attrs_consistent_def nth_list_update)
  have ag': "heap ag' = (heap ag)[self := (heap ag ! self)\<lparr>attrs := Some ?st'\<rparr>]"
    using 1(8) by (simp add: heap_set_attrs)
  show ?thesis
    unfolding statistics_consistent_def
  proof (intro allI impI)
    fix n st'
    assume n: "n < length (heap ag')" and a: "attrs (heap ag' ! n) = Some st'"
    show "attrs_consistent P n st'"
    proof (cases "n = self")
      case True
      with n a new ag' show ?thesis by simp
    next
      case False
      with n a ag' have "attrs (heap ag ! n) = Some st'" "n < length (heap ag)" by simp_all
      with assms(2) have "attrs_consistent (insert (self, a) P) n st'"
        by (simp add: statistics_consistent_def)
      with False show ?thesis by (simp add: attrs_consistent_def)
    qed
  qed
qed

text \<open>
  A simulation keeps the invariant for every pair of a node and an action outside \<open>P\<close>.
  The store is arbitrary, so a node may be reached again, through the transposition table
  or around a cycle, while an earlier visit of it is still being simulated: the pair counted
  by the earlier visit is then in \<open>P\<close> and is put right when that visit backs up.
\<close>

lemma select_statistics_consistent:
  assumes "select_leaf_and_update frames ops ag self d = Inr (v, ag')"
    "statistics_consistent P (heap ag)"
  shows "statistics_consistent P (heap ag')"
  using assms
proof (induction frames arbitrary: ag self d v ag' P)
  case 0
  then show ?case by simp
next
  case (Suc frames)
  from Suc.prems(1) show ?case
  proof (cases rule: select_cases)
    case (terminal node)
    with Suc.prems(2) show ?thesis by simp
  next
    case (leaf node st)
    from leaf(1,3) Suc.prems(2) have "attrs_consistent P self st"
      by (auto simp: get_node_Inr statistics_consistent_def)
    then have "attrs_consistent P self (st\<lparr>is_leaf_node := False\<rparr>)"
      by (simp add: attrs_consistent_leaf)
    with Suc.prems(2) leaf(6) show ?thesis by (simp add: statistics_consistent_update)
  next
    case (depth0 node st)
    with Suc.prems(2) show ?thesis by simp
  next
    case (step node st pri a c ag2 w ag3)
    let ?Q = "insert (self, a) P"
    from step(1,3) Suc.prems(2) have "attrs_consistent P self st"
      by (auto simp: get_node_Inr statistics_consistent_def)
    then have st: "attrs_consistent ?Q self (count_visit st a)"
      using step(8) by (rule count_visit_consistent)
    have "statistics_consistent ?Q (heap ag)"
      using Suc.prems(2) by (rule statistics_consistent_mono) auto
    then have "statistics_consistent ?Q (heap (set_attrs ag self (count_visit st a)))"
      using st by (rule statistics_consistent_update)
    then have "statistics_consistent ?Q (heap ag2)"
      by (rule child_statistics_consistent [OF step(9)])
    then have "statistics_consistent ?Q (heap ag3)"
      by (rule Suc.IH [OF step(10)])
    then show ?thesis
      by (rule backup_statistics_consistent [OF step(11)])
  qed
qed

lemma search_loop_statistics_consistent:
  assumes "search_loop frames ops ag n = Inr ag'" "statistics_consistent P (heap ag)"
  shows "statistics_consistent P (heap ag')"
  using assms
proof (induction n arbitrary: ag)
  case 0
  then show ?case by simp
next
  case (Suc n)
  from Suc.prems(1) obtain v ag1 where
    s: "select_leaf_and_update frames ops ag (initial_node ag) (max_depth ag) = Inr (v, ag1)"
    and r: "search_loop frames ops (ag1\<lparr>total_steps := total_steps ag1 + 1\<rparr>) n = Inr ag'"
    by (auto split: sum.splits)
  from select_statistics_consistent [OF s Suc.prems(2)]
  have "statistics_consistent P (heap (ag1\<lparr>total_steps := total_steps ag1 + 1\<rparr>))" by simp
  from Suc.IH [OF r this] show ?case .
qed

lemma init_statistics_consistent:
  assumes "MCTSAgent_init names rr ops mpv s maxd table h0 cp g noise = Inr ag"
    "statistics_consistent P h0"
  shows "statistics_consistent P (heap ag)"
proof -
  let ?new = "fst (MCTSNode_init ops (rr mpv) cp s)"
  from assms(1) obtain pri where
    h: "heap ag = h0 @ [?new\<lparr>prior_probabilities := Some pri\<rparr>]"
    by (auto simp: MCTSAgent_init_def Let_def split: if_splits sum.splits)
  have "statistics_consistent P (h0 @ [?new\<lparr>prior_probabilities := Some pri\<rparr>])"
    using assms(2)
  proof (rule statistics_consistent_append)
    fix st assume "attrs (?new\<lparr>prior_probabilities := Some pri\<rparr>) = Some st"
    then have "attrs ?new = Some st" by simp
    then show "attrs_consistent P (length h0) st" by (rule attrs_consistent_fresh)
  qed
  with h show ?thesis by simp
qed

lemma advance_statistics_consistent:
  assumes "advance_to_action ops ag action noise = Inr ag'" "statistics_consistent P (heap ag)"
  shows "statistics_consistent P (heap ag')"
proof -
  from assms(1) obtain c ag1 node pri where
    c: "child ops ag (initial_node ag) action = Inr (c, ag1)"
    and n: "get_node ag1 c = Inr node"
    and h: "heap ag' = (heap ag1)[c := node\<lparr>prior_probabilities := Some pri\<rparr>]"
    by (auto simp: advance_to_action_def split: sum.splits)
  have 1: "statistics_consistent P (heap ag1)"
    using c assms(2) by (rule child_statistics_consistent)
  show ?thesis
    unfolding statistics_consistent_def
  proof (intro allI impI)
    fix m st
    assume m: "m < length (heap ag')" and a: "attrs (heap ag' ! m) = Some st"
    from m a h n have "attrs (heap ag1 ! m) = Some st" "m < length (heap ag1)"
      by (auto simp: nth_list_update get_node_Inr split: if_splits)
    with 1 show "attrs_consistent P m st" by (simp add: statistics_consistent_def)
  qed
qed

text \<open>
  C6. From a store in which the invariant holds (such as the store of a newly constructed
  agent, by \<open>init_statistics_consistent\<close>, or of an agent that has advanced, by
  \<open>advance_statistics_consistent\<close>), after any number of completed simulations from the
  root every node that carries statistics has \<open>total_visit_counts\<close> equal to the sum of its
  \<open>visit_counts\<close>, and for every action with a positive visit count its
  \<open>mean_action_values\<close> entry is its \<open>total_action_values\<close> entry divided by the visit count.
  On a well-formed agent, with more stack frames than \<open>max_depth\<close>, the simulations do
  complete.
\<close>

theorem statistics_invariant:
  assumes "statistics_consistent {} (heap ag)"
  shows "(\<forall>ag' n st. search frames ops ag steps = Inr ag' \<longrightarrow> n < length (heap ag') \<longrightarrow>
            attrs (heap ag' ! n) = Some st \<longrightarrow>
            total_visit_counts st = sum_list (visit_counts st) \<and>
            (\<forall>a<length (visit_counts st). 0 < visit_counts st ! a \<longrightarrow>
               mean_action_values st ! a
                 = total_action_values st ! a / real_of_int (visit_counts st ! a))) \<and>
         (well_formed ag \<longrightarrow> initial_node ag < length (heap ag) \<longrightarrow> 0 \<le> max_depth ag \<longrightarrow>
            max_depth ag < int frames \<longrightarrow> (\<exists>ag'. search frames ops ag steps = Inr ag'))"
proof (intro conjI allI impI)
  fix ag' n st
  assume s: "search frames ops ag steps = Inr ag'" and n: "n < length (heap ag')"
    and st: "attrs (heap ag' ! n) = Some st"
  from s have "search_loop frames ops ag (nat steps) = Inr ag'" by (simp add: search_def)
  then have "statistics_consistent {} (heap ag')"
    using assms by (rule search_loop_statistics_consistent)
  with n st have c: "attrs_consistent {} n st" by (simp add: statistics_consistent_def)
  from c show "total_visit_counts st = sum_list (visit_counts st)"
    by (simp add: attrs_consistent_def)
  fix a assume "a < length (visit_counts st)" "0 < visit_counts st ! a"
  with c show "mean_action_values st ! a
                 = total_action_values st ! a / real_of_int (visit_counts st ! a)"
    by (simp add: attrs_consistent_def)
next
  assume "well_formed ag" "initial_node ag < length (heap ag)" "0 \<le> max_depth ag"
    "max_depth ag < int frames"
  from search_loop_total [OF this]
  show "\<exists>ag'. search frames ops ag steps = Inr ag'"
    unfolding search_def by blast
qed

theorem statistics_invariant_witness:
  "total_visit_counts
     (toy_attrs False 2 (2 # replicate 11 0) (1 / 2 # replicate 11 0) (1 / 4 # replicate 11 0)
        (Some 1 # replicate 11 None))
     = sum_list
         (visit_counts
            (toy_attrs False 2 (2 # replicate 11 0) (1 / 2 # replicate 11 0)
               (1 / 4 # replicate 11 0) (Some 1 # replicate 11 None))) \<and>
   mean_action_values
     (toy_attrs False 2 (2 # replicate 11 0) (1 / 2 # replicate 11 0) (1 / 4 # replicate 11 0)
        (Some 1 # replicate 11 None)) ! 0
     = total_action_values
         (toy_attrs False 2 (2 # replicate 11 0) (1 / 2 # replicate 11 0)
            (1 / 4 # replicate 11 0) (Some 1 # replicate 11 None)) ! 0
       / real_of_int
           (visit_counts
              (toy_attrs False 2 (2 # replicate 11 0) (1 / 2 # replicate 11 0)
                 (1 / 4 # replicate 11 0) (Some 1 # replicate 11 None)) ! 0) \<and>
   (\<exists>ag'. search 4 toy_ops toy_agent0 3 = Inr ag')"
proof -
  let ?st = "toy_attrs False 2 (2 # replicate 11 0) (1 / 2 # replicate 11 0)
               (1 / 4 # replicate 11 0) (Some 1 # replicate 11 None)"
  have 1: "statistics_consistent {} (heap toy_agent0)"
    by (simp add: toy_defs statistics_consistent_def attrs_consistent_def sum_list_replicate)
  note th = statistics_invariant [OF 1, of 4 toy_ops 3]
  have 3: "0 < length (heap toy_agent3)"
    by (simp add: toy_defs)
  have 4: "attrs (heap toy_agent3 ! 0) = Some ?st"
    by (simp add: toy_defs)
  have pos: "0 < length (visit_counts ?st)" "0 < visit_counts ?st ! 0"
    by (simp_all add: toy_defs)
  from th toy_search3 3 4
  have inv: "total_visit_counts ?st = sum_list (visit_counts ?st) \<and>
         (\<forall>a<length (visit_counts ?st). 0 < visit_counts ?st ! a \<longrightarrow>
            mean_action_values ?st ! a
              = total_action_values ?st ! a / real_of_int (visit_counts ?st ! a))"
    by blast
  have wf: "initial_node toy_agent0 < length (heap toy_agent0)" "0 \<le> max_depth toy_agent0"
    "max_depth toy_agent0 < int 4"
    by (simp_all add: toy_defs)
  from th toy_agent0_well_formed wf
  have ex: "\<exists>ag'. search 4 toy_ops toy_agent0 3 = Inr ag'" by blast
  from inv pos ex show ?thesis by blast
qed

section \<open>The action distribution\<close>

text \<open>
  On a root that is terminal or has never been simulated the result is \<open>None\<close>; on a
  visited root with at least one counted visit and \<open>inv_temp = 1\<close> it is the visit counts
  divided by their sum; on a visited root with no counted visit the division is by zero.
\<close>

lemma node_action_probabilities_undefined:
  assumes "terminal node \<or> (\<exists>st. attrs node = Some st \<and> is_leaf_node st)"
  shows "node_action_probabilities node inv_temp = Inr None"
  using assms by (auto simp: node_action_probabilities_def)

lemma node_action_probabilities_normalized:
  assumes "\<not> terminal node" "attrs node = Some st" "\<not> is_leaf_node st"
    "sum_list (visit_counts st) \<noteq> 0"
  shows "node_action_probabilities node 1
           = Inr (Some (map (\<lambda>c. real_of_int c / real_of_int (sum_list (visit_counts st)))
                          (visit_counts st)))"
proof (cases "length (visit_counts st) = 1")
  case True
  then obtain c where c: "visit_counts st = [c]"
    by (cases "visit_counts st") simp_all
  with assms show ?thesis
    by (simp add: node_action_probabilities_def np_divide_def np_broadcast_def)
next
  case False
  have "\<not> list_ex (\<lambda>p. snd p = 0)
          (map (\<lambda>x. (x, real_of_int (sum_list (visit_counts st))))
             (map real_of_int (visit_counts st)))"
    using assms(4) by (simp add: list_ex_iff)
  with assms False show ?thesis
    by (simp add: node_action_probabilities_def np_divide_def np_broadcast_def o_def)
qed

lemma node_action_probabilities_no_visits:
  assumes "\<not> terminal node" "attrs node = Some st" "\<not> is_leaf_node st"
    "sum_list (visit_counts st) = 0" "visit_counts st \<noteq> []"
  shows "node_action_probabilities node 1 = Inl NonFinite"
proof (cases "length (visit_counts st) = 1")
  case True
  then obtain c where c: "visit_counts st = [c]"
    by (cases "visit_counts st") simp_all
  with assms show ?thesis
    by (simp add: node_action_probabilities_def np_divide_def np_broadcast_def)
next
  case False
  have "list_ex (\<lambda>p. snd p = 0)
          (map (\<lambda>x. (x, real_of_int (sum_list (visit_counts st))))
             (map real_of_int (visit_counts st)))"
    using assms(4,5) by (cases "visit_counts st") (simp_all add: list_ex_iff)
  with assms False show ?thesis
    by (simp add: node_action_probabilities_def np_divide_def np_broadcast_def o_def)
qed

text \<open>
  C3. The specification asks for \<open>None\<close>, never a division by zero, on a root from which
  no distribution can be derived, and says so for a root that is not terminal after
  exactly one simulation. The source does not do that: the first simulation of a new root
  only clears \<open>is_leaf_node\<close>, all visit counts stay 0, and \<open>action_probabilities(1)\<close> then
  divides the counts by their sum 0. In the small system: before any simulation the result
  is \<open>None\<close>; after one simulation the counts are all 0 and the result is the division by
  zero.
\<close>

theorem action_probabilities_after_one_simulation:
  "action_probabilities toy_agent0 1 = Inr None \<and>
   search 4 toy_ops toy_agent0 1 = Inr toy_agent1 \<and>
   action_visit_counts toy_agent1 = Inr (replicate 12 0) \<and>
   action_probabilities toy_agent1 1 = Inl NonFinite"
  by (simp add: toy_defs model_defs numeral_eq_Suc)

section \<open>Children and the transposition table\<close>

lemma child_idempotent:
  assumes "child ops ag p a = Inr (c, ag')"
  shows "child ops ag' p a = Inr (c, ag')"
  using assms
proof (cases rule: child_cases)
  case (linked node st i)
  with assms show ?thesis by simp
next
  case (table node st i)
  from table(1) have p: "p < length (heap ag)" by (simp add: get_node_Inr)
  from table(3) have i: "i < length (children st)" by (rule py_index_less)
  from p i table(2,3,6) show ?thesis
    by (simp add: child_def get_node_def heap_set_attrs)
next
  case (fresh node st i)
  from fresh(1) have p: "p < length (heap ag)" by (simp add: get_node_Inr)
  from fresh(3) have i: "i < length (children st)" by (rule py_index_less)
  from p i fresh(2,3,7) show ?thesis
    by (simp add: child_def get_node_def heap_set_attrs nth_append)
qed

lemma child_table_after:
  assumes "child ops ag p a = Inr (c, ag')" "0 \<le> a"
    "links_consistent ops (heap ag) (transposition_table ag)"
  shows "transposition_table ag' (State_key ops (State_next ops (state (heap ag ! p)) a)) = Some c"
  using assms(1)
proof (cases rule: child_cases)
  case (linked node st i)
  from linked(3) have i: "i < length (children st)" "int i = a"
    using assms(2) by (auto dest: py_index_less py_index_nonneg)
  from linked(1,2,4,5) i assms(3) show ?thesis
    by (auto simp: links_consistent_def get_node_Inr)
next
  case (table node st i)
  then show ?thesis by (auto simp: get_node_Inr)
next
  case (fresh node st i)
  then show ?thesis by (auto simp: get_node_Inr)
qed

lemma child_creates_nothing_when_known:
  assumes "child ops ag q b = Inr (c, ag')" "get_node ag q = Inr node"
    "transposition_table ag (State_key ops (State_next ops (state node) b)) = Some c0"
  shows "length (heap ag') = length (heap ag) \<and> oracle_calls ag' = oracle_calls ag"
  using assms(1)
proof (cases rule: child_cases)
  case (linked node st i)
  then show ?thesis by simp
next
  case (table node st i)
  then show ?thesis by simp
next
  case (fresh node' st i)
  with assms(2,3) show ?thesis by simp
qed

lemma child_keeps_nodes:
  assumes "child ops ag self a = Inr (c, ag')" "n < length (heap ag)"
  shows "statistics (heap ag' ! n) = statistics (heap ag ! n) \<and>
         state (heap ag' ! n) = state (heap ag ! n) \<and>
         (n \<noteq> self \<longrightarrow> heap ag' ! n = heap ag ! n)"
  using assms(1)
proof (cases rule: child_cases)
  case (linked node st i)
  then show ?thesis by simp
next
  case (table node st i)
  with assms(2) show ?thesis
    by (auto simp: heap_set_attrs statistics_def nth_list_update get_node_Inr)
next
  case (fresh node st i)
  with assms(2) show ?thesis
    by (auto simp: heap_set_attrs statistics_def nth_list_update nth_append get_node_Inr)
qed

text \<open>
  The links stay consistent with the table: under a new or changed link of \<open>child\<close> (for
  an action that is not negative, so that the slot is the action), under every update of
  the statistics, through a whole simulation, at construction and when the root advances.
\<close>

lemma links_consistent_update:
  assumes "links_consistent ops h table" "r < length h" "attrs (h ! r) = Some st"
    "children st' = children st"
  shows "links_consistent ops (h[r := (h ! r)\<lparr>attrs := Some st'\<rparr>]) table"
  unfolding links_consistent_def
proof (intro allI impI)
  fix n st0 i c
  assume n: "n < length (h[r := (h ! r)\<lparr>attrs := Some st'\<rparr>])"
    and a: "attrs (h[r := (h ! r)\<lparr>attrs := Some st'\<rparr>] ! n) = Some st0"
    and i: "i < length (children st0)" and c: "children st0 ! i = Some c"
  show "table (State_key ops (State_next ops (state (h[r := (h ! r)\<lparr>attrs := Some st'\<rparr>] ! n)) (int i)))
          = Some c"
  proof (cases "n = r")
    case True
    with n a have "st0 = st'" by simp
    with i c assms(4) have "i < length (children st)" "children st ! i = Some c" by simp_all
    with assms(1,2,3) have "table (State_key ops (State_next ops (state (h ! r)) (int i))) = Some c"
      by (simp add: links_consistent_def)
    with True assms(2) show ?thesis by simp
  next
    case False
    with n a i c assms(1) show ?thesis by (simp add: links_consistent_def)
  qed
qed

lemma links_consistent_link:
  assumes "links_consistent ops h table" "r < length h" "attrs (h ! r) = Some st"
    "i < length (children st)"
    "table (State_key ops (State_next ops (state (h ! r)) (int i))) = Some c"
  shows "links_consistent ops (h[r := (h ! r)\<lparr>attrs := Some (st\<lparr>children := (children st)[i := Some c]\<rparr>)\<rparr>])
           table"
  unfolding links_consistent_def
proof (intro allI impI)
  let ?h = "h[r := (h ! r)\<lparr>attrs := Some (st\<lparr>children := (children st)[i := Some c]\<rparr>)\<rparr>]"
  fix n st0 j c'
  assume n: "n < length ?h" and a: "attrs (?h ! n) = Some st0"
    and j: "j < length (children st0)" and c': "children st0 ! j = Some c'"
  show "table (State_key ops (State_next ops (state (?h ! n)) (int j))) = Some c'"
  proof (cases "n = r")
    case True
    with n a have st0: "st0 = st\<lparr>children := (children st)[i := Some c]\<rparr>" by simp
    show ?thesis
    proof (cases "j = i")
      case ji: True
      with st0 c' assms(4) have "c' = c" by simp
      with ji True assms(2,5) show ?thesis by simp
    next
      case False
      with st0 j c' have "j < length (children st)" "children st ! j = Some c'" by simp_all
      with assms(1,2,3) have "table (State_key ops (State_next ops (state (h ! r)) (int j))) = Some c'"
        by (simp add: links_consistent_def)
      with True assms(2) show ?thesis by simp
    qed
  next
    case False
    with n a j c' assms(1) show ?thesis by (simp add: links_consistent_def)
  qed
qed

lemma links_consistent_append:
  assumes "links_consistent ops h table"
    "\<And>st. attrs node = Some st \<Longrightarrow> \<forall>i<length (children st). children st ! i = None"
  shows "links_consistent ops (h @ [node]) table"
  unfolding links_consistent_def
proof (intro allI impI)
  fix n st i c
  assume n: "n < length (h @ [node])" and a: "attrs ((h @ [node]) ! n) = Some st"
    and i: "i < length (children st)" and c: "children st ! i = Some c"
  show "table (State_key ops (State_next ops (state ((h @ [node]) ! n)) (int i))) = Some c"
  proof (cases "n < length h")
    case True
    with a i c assms(1) show ?thesis by (simp add: nth_append links_consistent_def)
  next
    case False
    with n have "n = length h" by simp
    with a have "attrs node = Some st" by simp
    from assms(2) [OF this] i c show ?thesis by simp
  qed
qed

lemma links_consistent_table_mono:
  assumes "links_consistent ops h table" "table k = None"
  shows "links_consistent ops h (table(k \<mapsto> c))"
  using assms unfolding links_consistent_def by auto

lemma fresh_node_no_children:
  assumes "attrs (fst (MCTSNode_init ops mpv cp s)) = Some st"
  shows "\<forall>i<length (children st). children st ! i = None"
  using assms by (auto simp: MCTSNode_init_def Let_def split: if_splits)

lemma child_links_consistent:
  assumes "child ops ag p a = Inr (c, ag')" "0 \<le> a"
    "links_consistent ops (heap ag) (transposition_table ag)"
  shows "links_consistent ops (heap ag') (transposition_table ag')"
  using assms(1)
proof (cases rule: child_cases)
  case (linked node st i)
  with assms(3) show ?thesis by simp
next
  case (table node st i)
  from table(1) have p: "p < length (heap ag)" "heap ag ! p = node" by (simp_all add: get_node_Inr)
  from table(3) have i: "i < length (children st)" "int i = a"
    using assms(2) by (auto dest: py_index_less py_index_nonneg)
  have "links_consistent ops
          ((heap ag)[p := (heap ag ! p)\<lparr>attrs := Some (st\<lparr>children := (children st)[i := Some c]\<rparr>)\<rparr>])
          (transposition_table ag)"
    using assms(3) p(1) _ i(1)
  proof (rule links_consistent_link)
    show "attrs (heap ag ! p) = Some st" using p table(2) by simp
    show "transposition_table ag (State_key ops (State_next ops (state (heap ag ! p)) (int i))) = Some c"
      using table(5) p i by simp
  qed
  with table(6) show ?thesis by (simp add: heap_set_attrs)
next
  case (fresh node st i)
  let ?key = "State_key ops (State_next ops (state node) a)"
  let ?new = "fst (MCTSNode_init ops (model_policy_value ag) (agent_c_puct ag)
                     (State_next ops (state node) a))"
  let ?t = "(transposition_table ag)(?key \<mapsto> c)"
  from fresh(1) have p: "p < length (heap ag)" "heap ag ! p = node" by (simp_all add: get_node_Inr)
  from fresh(3) have i: "i < length (children st)" "int i = a"
    using assms(2) by (auto dest: py_index_less py_index_nonneg)
  have "links_consistent ops (heap ag) ?t"
    using assms(3) fresh(5) by (rule links_consistent_table_mono)
  then have 1: "links_consistent ops (heap ag @ [?new]) ?t"
    by (rule links_consistent_append) (rule fresh_node_no_children)
  have "links_consistent ops
          ((heap ag @ [?new])[p := ((heap ag @ [?new]) ! p)
              \<lparr>attrs := Some (st\<lparr>children := (children st)[i := Some c]\<rparr>)\<rparr>]) ?t"
    using 1 _ _ i(1)
  proof (rule links_consistent_link)
    show "p < length (heap ag @ [?new])" using p by simp
    show "attrs ((heap ag @ [?new]) ! p) = Some st" using p fresh(2) by (simp add: nth_append)
    show "?t (State_key ops (State_next ops (state ((heap ag @ [?new]) ! p)) (int i))) = Some c"
      using p i by (simp add: nth_append)
  qed
  with fresh(7) show ?thesis by (simp add: heap_set_attrs)
qed

lemma set_attrs_links_consistent:
  assumes "links_consistent ops (heap ag) (transposition_table ag)"
    "get_node ag r = Inr node" "attrs node = Some st" "children st' = children st"
  shows "links_consistent ops (heap (set_attrs ag r st')) (transposition_table (set_attrs ag r st'))"
proof -
  from assms(2,3) have "r < length (heap ag)" "attrs (heap ag ! r) = Some st"
    by (auto simp: get_node_Inr)
  from links_consistent_update [OF assms(1) this assms(4)] show ?thesis
    by (simp add: heap_set_attrs)
qed

lemma backup_links_consistent:
  assumes "backup ag self a x = Inr (v, ag')"
    "links_consistent ops (heap ag) (transposition_table ag)"
  shows "links_consistent ops (heap ag') (transposition_table ag')"
  using assms(1)
proof (cases rule: backup_cases)
  case (1 node st)
  from set_attrs_links_consistent [OF assms(2) 1(1,2)] 1(8) show ?thesis by simp
qed

lemma select_links_consistent:
  assumes "select_leaf_and_update frames ops ag self d = Inr (v, ag')"
    "links_consistent ops (heap ag) (transposition_table ag)"
  shows "links_consistent ops (heap ag') (transposition_table ag')"
  using assms
proof (induction frames arbitrary: ag self d v ag')
  case 0
  then show ?case by simp
next
  case (Suc frames)
  from Suc.prems(1) show ?case
  proof (cases rule: select_cases)
    case (terminal node)
    with Suc.prems(2) show ?thesis by simp
  next
    case (leaf node st)
    from set_attrs_links_consistent [OF Suc.prems(2) leaf(1,3)] leaf(6) show ?thesis by simp
  next
    case (depth0 node st)
    with Suc.prems(2) show ?thesis by simp
  next
    case (step node st pri a c ag2 w ag3)
    have "children (count_visit st a) = children st" by (simp add: count_visit_def)
    from set_attrs_links_consistent [OF Suc.prems(2) step(1,3) this]
    have "links_consistent ops (heap ag2) (transposition_table ag2)"
      by (intro child_links_consistent [OF step(9)]) simp_all
    then have "links_consistent ops (heap ag3) (transposition_table ag3)"
      by (rule Suc.IH [OF step(10)])
    then show ?thesis by (rule backup_links_consistent [OF step(11)])
  qed
qed

lemma search_loop_links_consistent:
  assumes "search_loop frames ops ag n = Inr ag'"
    "links_consistent ops (heap ag) (transposition_table ag)"
  shows "links_consistent ops (heap ag') (transposition_table ag')"
  using assms
proof (induction n arbitrary: ag)
  case 0
  then show ?case by simp
next
  case (Suc n)
  from Suc.prems(1) obtain v ag1 where
    s: "select_leaf_and_update frames ops ag (initial_node ag) (max_depth ag) = Inr (v, ag1)"
    and r: "search_loop frames ops (ag1\<lparr>total_steps := total_steps ag1 + 1\<rparr>) n = Inr ag'"
    by (auto split: sum.splits)
  from select_links_consistent [OF s Suc.prems(2)]
  have "links_consistent ops (heap (ag1\<lparr>total_steps := total_steps ag1 + 1\<rparr>))
          (transposition_table (ag1\<lparr>total_steps := total_steps ag1 + 1\<rparr>))" by simp
  from Suc.IH [OF r this] show ?case .
qed

lemma init_links_consistent:
  assumes "MCTSAgent_init names rr ops mpv s maxd table h0 cp g noise = Inr ag"
    "links_consistent ops h0 table"
  shows "links_consistent ops (heap ag) (transposition_table ag)"
proof -
  let ?new = "fst (MCTSNode_init ops (rr mpv) cp s)"
  from assms(1) obtain pri where
    h: "heap ag = h0 @ [?new\<lparr>prior_probabilities := Some pri\<rparr>]" "transposition_table ag = table"
    by (auto simp: MCTSAgent_init_def Let_def split: if_splits sum.splits)
  have "links_consistent ops (h0 @ [?new\<lparr>prior_probabilities := Some pri\<rparr>]) table"
    using assms(2)
  proof (rule links_consistent_append)
    fix st assume "attrs (?new\<lparr>prior_probabilities := Some pri\<rparr>) = Some st"
    then have "attrs ?new = Some st" by simp
    then show "\<forall>i<length (children st). children st ! i = None"
      by (rule fresh_node_no_children)
  qed
  with h show ?thesis by simp
qed

lemma advance_links_consistent:
  assumes "advance_to_action ops ag action noise = Inr ag'" "0 \<le> action"
    "links_consistent ops (heap ag) (transposition_table ag)"
  shows "links_consistent ops (heap ag') (transposition_table ag')"
proof -
  from assms(1) obtain c ag1 node pri where
    c: "child ops ag (initial_node ag) action = Inr (c, ag1)"
    and n: "get_node ag1 c = Inr node"
    and h: "heap ag' = (heap ag1)[c := node\<lparr>prior_probabilities := Some pri\<rparr>]"
       "transposition_table ag' = transposition_table ag1"
    by (auto simp: advance_to_action_def split: sum.splits)
  have 1: "links_consistent ops (heap ag1) (transposition_table ag1)"
    using c assms(2,3) by (rule child_links_consistent)
  show ?thesis
    unfolding links_consistent_def
  proof (intro allI impI)
    fix m st i c'
    assume m: "m < length (heap ag')" and a: "attrs (heap ag' ! m) = Some st"
      and i: "i < length (children st)" and c': "children st ! i = Some c'"
    from m a h n have "attrs (heap ag1 ! m) = Some st" "m < length (heap ag1)"
      "state (heap ag' ! m) = state (heap ag1 ! m)"
      by (auto simp: nth_list_update get_node_Inr split: if_splits)
    with 1 i c' h(2)
    show "transposition_table ag' (State_key ops (State_next ops (state (heap ag' ! m)) (int i)))
            = Some c'"
      by (simp add: links_consistent_def)
  qed
qed

text \<open>
  C9. \<open>child\<close> is idempotent: a second call on the same node with the same action returns
  the same node and leaves the agent and the store as they are, so no node is created and
  the policy/value function is not called again. It shares transpositions: where the
  links are consistent with the table, any later call of \<open>child\<close>, on any node and with any
  action whose outcome has the same key, returns the same node reference, creates no node
  and calls nothing; since both parents then hold a reference to one node of the store,
  the statistics written through one are those read through the other. Actions are not
  negative here: a negative action is a Python index from the end and shares its slot with
  another action.
\<close>

theorem child_idempotent_and_shared:
  assumes "child ops ag p a = Inr (c1, ag1)"
  shows "child ops ag1 p a = Inr (c1, ag1) \<and>
         (links_consistent ops (heap ag) (transposition_table ag) \<longrightarrow> 0 \<le> a \<longrightarrow>
            links_consistent ops (heap ag1) (transposition_table ag1) \<and>
            (\<forall>q b c2 ag2.
               0 \<le> b \<longrightarrow> child ops ag1 q b = Inr (c2, ag2) \<longrightarrow>
               State_key ops (State_next ops (state (heap ag1 ! q)) b)
                 = State_key ops (State_next ops (state (heap ag ! p)) a) \<longrightarrow>
               c2 = c1 \<and> length (heap ag2) = length (heap ag1) \<and>
               oracle_calls ag2 = oracle_calls ag1))"
proof (intro conjI impI allI)
  show "child ops ag1 p a = Inr (c1, ag1)"
    using assms by (rule child_idempotent)
next
  assume lc: "links_consistent ops (heap ag) (transposition_table ag)" and a: "0 \<le> a"
  show "links_consistent ops (heap ag1) (transposition_table ag1)"
    using assms a lc by (rule child_links_consistent)
next
  fix q b c2 ag2
  assume lc: "links_consistent ops (heap ag) (transposition_table ag)" and a: "0 \<le> a"
    and b: "0 \<le> b" and q: "child ops ag1 q b = Inr (c2, ag2)"
    and k: "State_key ops (State_next ops (state (heap ag1 ! q)) b)
              = State_key ops (State_next ops (state (heap ag ! p)) a)"
  have lc1: "links_consistent ops (heap ag1) (transposition_table ag1)"
    using assms a lc by (rule child_links_consistent)
  have t1: "transposition_table ag1 (State_key ops (State_next ops (state (heap ag ! p)) a)) = Some c1"
    using assms a lc by (rule child_table_after)
  from q obtain nq where nq: "get_node ag1 q = Inr nq"
    by (cases rule: child_cases) simp_all
  then have nq': "heap ag1 ! q = nq" by (simp add: get_node_Inr)
  have known: "transposition_table ag1 (State_key ops (State_next ops (state nq) b)) = Some c1"
    using t1 k nq' by simp
  have t2: "transposition_table ag2 (State_key ops (State_next ops (state (heap ag1 ! q)) b)) = Some c2"
    using q b lc1 by (rule child_table_after)
  from child_creates_nothing_when_known [OF q nq known]
  have same: "length (heap ag2) = length (heap ag1)" "oracle_calls ag2 = oracle_calls ag1"
    by simp_all
  from q nq known have "transposition_table ag2 = transposition_table ag1"
    by (cases rule: child_cases) simp_all
  with t2 known nq' have "c2 = c1" by simp
  with same show "c2 = c1" "length (heap ag2) = length (heap ag1)"
    "oracle_calls ag2 = oracle_calls ag1"
    by simp_all
qed

theorem child_idempotent_and_shared_witness:
  "child toy_ops toy_agent4 1 1 = Inr (3, toy_agent4) \<and>
   links_consistent toy_ops (heap toy_agent4) (transposition_table toy_agent4) \<and>
   map_sum id fst (child toy_ops toy_agent4 1 2) = Inr 3"
proof -
  have "links_consistent toy_ops [] Map.empty"
    by (simp add: links_consistent_def)
  then have "links_consistent toy_ops (heap toy_agent0) (transposition_table toy_agent0)"
    by (rule init_links_consistent [OF toy_init])
  moreover have "search_loop 4 toy_ops toy_agent0 3 = Inr toy_agent3"
    using toy_search3 by (simp add: search_def)
  ultimately have lc: "links_consistent toy_ops (heap toy_agent3) (transposition_table toy_agent3)"
    by (rule search_loop_links_consistent [rotated])
  note th = child_idempotent_and_shared [OF toy_second_node]
  from th have idem: "child toy_ops toy_agent4 1 1 = Inr (3, toy_agent4)" by simp
  from th lc have lc4: "links_consistent toy_ops (heap toy_agent4) (transposition_table toy_agent4)"
    by simp
  from th lc have shared:
    "\<And>q b c2 ag2. 0 \<le> b \<Longrightarrow> child toy_ops toy_agent4 q b = Inr (c2, ag2) \<Longrightarrow>
       State_key toy_ops (State_next toy_ops (state (heap toy_agent4 ! q)) b)
         = State_key toy_ops (State_next toy_ops (state (heap toy_agent3 ! 1)) 1) \<Longrightarrow> c2 = 3"
    by simp
  obtain c2 ag2 where q: "child toy_ops toy_agent4 1 2 = Inr (c2, ag2)"
    by (simp add: toy_defs model_defs numeral_eq_Suc)
  have "State_key toy_ops (State_next toy_ops (state (heap toy_agent4 ! 1)) 2)
          = State_key toy_ops (State_next toy_ops (state (heap toy_agent3 ! 1)) 1)"
    by (simp add: toy_defs State_key_def State_next_def)
  with shared [OF _ q] have "c2 = 3" by simp
  with q idem lc4 show ?thesis by simp
qed

section \<open>Root noise and advancing the root\<close>

text \<open>
  C8. At construction, the root's \<open>prior_probabilities\<close> are 0.75 times the priors that the
  policy/value function gives for the root's state plus 0.25 times the noise sample, and
  \<open>shortest_path\<close> is \<open>max_depth + 1\<close>. \<open>advance_to_action\<close> makes \<open>child(action)\<close> of the old
  root the new root, gives it priors noised in the same way from the priors of its own
  state, and resets \<open>shortest_path\<close> to \<open>max_depth + 1\<close>; the statistics of every node that
  existed are unchanged, the new root keeps its statistics and its links, and only the old
  root may have gained a link. The noise sample is a parameter: that it is drawn from a
  Dirichlet distribution is outside the model.
\<close>

theorem root_noise_and_reset:
  assumes "''rotationally_randomize'' \<in> set names"
    "length noise = length (fst (rr mpv (State_input_array ops s)))"
    "advance_to_action ops ag1 action noise1 = Inr ag'"
    "\<forall>x. length (fst (model_policy_value ag1 x)) = length noise1"
  shows "(\<exists>ag root.
            MCTSAgent_init names rr ops mpv s maxd table objs cp g noise = Inr ag \<and>
            get_node ag (initial_node ag) = Inr root \<and> state root = s \<and>
            prior_probabilities root
              = Some (map2 (\<lambda>p x. 0.75 * p + 0.25 * x)
                        (fst (rr mpv (State_input_array ops s))) noise) \<and>
            model_policy_value ag = rr mpv \<and> max_depth ag = maxd \<and>
            shortest_path ag = maxd + 1) \<and>
         (\<exists>c ag2 root'.
            child ops ag1 (initial_node ag1) action = Inr (c, ag2) \<and>
            initial_node ag' = c \<and> get_node ag' c = Inr root' \<and>
            state root' = state (heap ag2 ! c) \<and> attrs root' = attrs (heap ag2 ! c) \<and>
            prior_probabilities root'
              = Some (map2 (\<lambda>p x. 0.75 * p + 0.25 * x)
                        (fst (model_policy_value ag1 (State_input_array ops (state root'))))
                        noise1) \<and>
            max_depth ag' = max_depth ag1 \<and> shortest_path ag' = max_depth ag1 + 1 \<and>
            (\<forall>n<length (heap ag1). statistics (heap ag' ! n) = statistics (heap ag1 ! n)) \<and>
            (\<forall>n<length (heap ag1). n \<noteq> initial_node ag1 \<longrightarrow>
               attrs (heap ag' ! n) = attrs (heap ag1 ! n)))"
proof (rule conjI)
  let ?raw = "fst (rr mpv (State_input_array ops s))"
  have st: "state (fst (MCTSNode_init ops (rr mpv) cp s)) = s"
    by (simp add: MCTSNode_init_def Let_def)
  have "root_noise ?raw noise = Inr (map2 (\<lambda>p x. 0.75 * p + 0.25 * x) ?raw noise)"
    using assms(2) by (rule root_noise_same_length)
  with assms(1) st
  show "\<exists>ag root.
          MCTSAgent_init names rr ops mpv s maxd table objs cp g noise = Inr ag \<and>
          get_node ag (initial_node ag) = Inr root \<and> state root = s \<and>
          prior_probabilities root = Some (map2 (\<lambda>p x. 0.75 * p + 0.25 * x) ?raw noise) \<and>
          model_policy_value ag = rr mpv \<and> max_depth ag = maxd \<and>
          shortest_path ag = maxd + 1"
    by (simp add: MCTSAgent_init_def Let_def get_node_def)
next
  from assms(3) obtain c ag2 node pri where
    c: "child ops ag1 (initial_node ag1) action = Inr (c, ag2)"
    and n: "get_node ag2 c = Inr node"
    and rn: "root_noise (fst (model_policy_value ag2 (State_input_array ops (state node)))) noise1
               = Inr pri"
    and ag': "ag' = ag2\<lparr>initial_node := c,
                       heap := (heap ag2)[c := node\<lparr>prior_probabilities := Some pri\<rparr>],
                       oracle_calls := oracle_calls ag2 + 1,
                       shortest_path := max_depth ag2 + 1\<rparr>"
    by (auto simp: advance_to_action_def split: sum.splits)
  from n have cn: "c < length (heap ag2)" "heap ag2 ! c = node" by (simp_all add: get_node_Inr)
  note fr = child_frame [OF c]
  let ?raw = "fst (model_policy_value ag1 (State_input_array ops (state node)))"
  have "length noise1 = length ?raw" using assms(4) by simp
  then have "root_noise ?raw noise1 = Inr (map2 (\<lambda>p x. 0.75 * p + 0.25 * x) ?raw noise1)"
    by (rule root_noise_same_length)
  with rn fr have pri: "pri = map2 (\<lambda>p x. 0.75 * p + 0.25 * x) ?raw noise1" by simp
  let ?root = "node\<lparr>prior_probabilities := Some pri\<rparr>"
  have old: "\<And>m. m < length (heap ag1) \<Longrightarrow>
               statistics (heap ag' ! m) = statistics (heap ag1 ! m) \<and>
               (m \<noteq> initial_node ag1 \<longrightarrow> attrs (heap ag' ! m) = attrs (heap ag1 ! m))"
  proof -
    fix m assume m: "m < length (heap ag1)"
    from child_keeps_nodes [OF c m]
    have k: "statistics (heap ag2 ! m) = statistics (heap ag1 ! m)"
      "m \<noteq> initial_node ag1 \<longrightarrow> heap ag2 ! m = heap ag1 ! m" by simp_all
    have "attrs (heap ag' ! m) = attrs (heap ag2 ! m)"
      using ag' cn by (cases "m = c") simp_all
    with k show "statistics (heap ag' ! m) = statistics (heap ag1 ! m) \<and>
               (m \<noteq> initial_node ag1 \<longrightarrow> attrs (heap ag' ! m) = attrs (heap ag1 ! m))"
      by (auto simp: statistics_def)
  qed
  have "child ops ag1 (initial_node ag1) action = Inr (c, ag2) \<and>
        initial_node ag' = c \<and> get_node ag' c = Inr ?root \<and>
        state ?root = state (heap ag2 ! c) \<and> attrs ?root = attrs (heap ag2 ! c) \<and>
        prior_probabilities ?root
          = Some (map2 (\<lambda>p x. 0.75 * p + 0.25 * x)
                    (fst (model_policy_value ag1 (State_input_array ops (state ?root)))) noise1) \<and>
        max_depth ag' = max_depth ag1 \<and> shortest_path ag' = max_depth ag1 + 1 \<and>
        (\<forall>n<length (heap ag1). statistics (heap ag' ! n) = statistics (heap ag1 ! n)) \<and>
        (\<forall>n<length (heap ag1). n \<noteq> initial_node ag1 \<longrightarrow>
           attrs (heap ag' ! n) = attrs (heap ag1 ! n))"
    using c ag' cn pri fr old by (simp add: get_node_def)
  then show "\<exists>c ag2 root'.
            child ops ag1 (initial_node ag1) action = Inr (c, ag2) \<and>
            initial_node ag' = c \<and> get_node ag' c = Inr root' \<and>
            state root' = state (heap ag2 ! c) \<and> attrs root' = attrs (heap ag2 ! c) \<and>
            prior_probabilities root'
              = Some (map2 (\<lambda>p x. 0.75 * p + 0.25 * x)
                        (fst (model_policy_value ag1 (State_input_array ops (state root'))))
                        noise1) \<and>
            max_depth ag' = max_depth ag1 \<and> shortest_path ag' = max_depth ag1 + 1 \<and>
            (\<forall>n<length (heap ag1). statistics (heap ag' ! n) = statistics (heap ag1 ! n)) \<and>
            (\<forall>n<length (heap ag1). n \<noteq> initial_node ag1 \<longrightarrow>
               attrs (heap ag' ! n) = attrs (heap ag1 ! n))"
    by blast
qed

theorem root_noise_and_reset_witness:
  "(\<exists>ag root.
      MCTSAgent_init toy_names id toy_ops toy_policy_value 2 3 Map.empty [] 1 (1 / 2) toy_noise
        = Inr ag \<and>
      get_node ag (initial_node ag) = Inr root \<and> state root = 2 \<and>
      prior_probabilities root
        = Some (map2 (\<lambda>p x. 0.75 * p + 0.25 * x)
                  (fst (id toy_policy_value (State_input_array toy_ops 2))) toy_noise) \<and>
      model_policy_value ag = id toy_policy_value \<and> max_depth ag = 3 \<and>
      shortest_path ag = 3 + 1) \<and>
   initial_node (toy_agent3\<lparr>initial_node := 1, shortest_path := 4, oracle_calls := 4\<rparr>) = 1 \<and>
   shortest_path (toy_agent3\<lparr>initial_node := 1, shortest_path := 4, oracle_calls := 4\<rparr>)
     = max_depth toy_agent3 + 1 \<and>
   statistics (heap (toy_agent3\<lparr>initial_node := 1, shortest_path := 4, oracle_calls := 4\<rparr>) ! 1)
     = statistics (heap toy_agent3 ! 1)"
proof -
  have 1: "''rotationally_randomize'' \<in> set toy_names" by (simp add: toy_defs)
  have 2: "length toy_noise = length (fst (id toy_policy_value (State_input_array toy_ops 2)))"
    by (simp add: toy_defs)
  have 4: "\<forall>x. length (fst (model_policy_value toy_agent3 x)) = length toy_noise"
    by (simp add: toy_defs)
  note th = root_noise_and_reset
    [where rr = id and mpv = toy_policy_value and maxd = 3 and table = Map.empty and objs = "[]"
       and cp = 1 and g = "1 / 2", OF 1 2 toy_advance 4]
  have c: "child toy_ops toy_agent3 0 0 = Inr (1, toy_agent3)"
    by (simp add: toy_defs model_defs)
  have len: "1 < length (heap toy_agent3)" by (simp add: toy_defs)
  from th c len show ?thesis by auto
qed

end
